theory Spec2Isabelle
  imports Complex_Main
begin

section \<open>JavaScript numbers\<close>

text \<open>
  A JavaScript number is an IEEE 754 double: \<open>NaN\<close>, one of the two infinities, or a
  finite value \<open>Fin x\<close>, where \<open>x\<close> is the real number the double stands for. There
  is a single zero, read as \<open>+0\<close> where a division by it decides a sign. Every
  operation with \<open>NaN\<close> gives \<open>NaN\<close>, every comparison with \<open>NaN\<close> is false,
  \<open>Infinity - Infinity\<close> and \<open>Infinity / Infinity\<close> are \<open>NaN\<close>.
\<close>

datatype jsnum = NaN | PInf | NInf | Fin real

fun isFinite :: "jsnum \<Rightarrow> bool" where
  "isFinite (Fin x) = True"
| "isFinite _ = False"

text \<open>
  Rounding to the nearest integer, a tie going to the even one.
\<close>

definition rne :: "real \<Rightarrow> int" where
  "rne q =
     (let f = \<lfloor>q\<rfloor>; d = q - of_int f
      in if d < 1 / 2 then f
         else if 1 / 2 < d then f + 1
         else if even f then f else f + 1)"

text \<open>
  \<open>fl x\<close> is the double an arithmetic operation returns when its exact result is
  \<open>x\<close>, and the double a decimal literal denotes (binary64, round to nearest, ties to
  even). With \<open>e\<close> the binary exponent of \<open>x\<close>, not below \<open>-1022\<close> (below it the
  doubles are subnormal and equally spaced), \<open>x\<close> is rounded to a multiple of
  \<open>2 ^ (e - 52)\<close>, which leaves 53 significant bits; a result of magnitude
  \<open>2 ^ 1024\<close> or more is an overflow and gives an infinity.
\<close>

definition fl :: "real \<Rightarrow> jsnum" where
  "fl x =
     (if x = 0 then Fin 0
      else (let e = max \<lfloor>log 2 \<bar>x\<bar>\<rfloor> (- 1022);
                y = of_int (rne (x / 2 powi (e - 52))) * 2 powi (e - 52)
            in if 2 ^ 1024 \<le> \<bar>y\<bar> then (if 0 < x then PInf else NInf) else Fin y))"

text \<open>A real number is a double when rounding keeps it.\<close>

definition isDouble :: "real \<Rightarrow> bool" where
  "isDouble x = (fl x = Fin x)"

text \<open>\<open>a - b\<close>\<close>

fun js_sub :: "jsnum \<Rightarrow> jsnum \<Rightarrow> jsnum" where
  "js_sub NaN _ = NaN"
| "js_sub _ NaN = NaN"
| "js_sub (Fin x) (Fin y) = fl (x - y)"
| "js_sub PInf PInf = NaN"
| "js_sub NInf NInf = NaN"
| "js_sub PInf _ = PInf"
| "js_sub NInf _ = NInf"
| "js_sub (Fin x) PInf = NInf"
| "js_sub (Fin x) NInf = PInf"

text \<open>\<open>a * b\<close>\<close>

fun js_mul :: "jsnum \<Rightarrow> jsnum \<Rightarrow> jsnum" where
  "js_mul NaN _ = NaN"
| "js_mul _ NaN = NaN"
| "js_mul (Fin x) (Fin y) = fl (x * y)"
| "js_mul PInf PInf = PInf"
| "js_mul PInf NInf = NInf"
| "js_mul NInf PInf = NInf"
| "js_mul NInf NInf = PInf"
| "js_mul PInf (Fin y) = (if y = 0 then NaN else if 0 < y then PInf else NInf)"
| "js_mul NInf (Fin y) = (if y = 0 then NaN else if 0 < y then NInf else PInf)"
| "js_mul (Fin x) PInf = (if x = 0 then NaN else if 0 < x then PInf else NInf)"
| "js_mul (Fin x) NInf = (if x = 0 then NaN else if 0 < x then NInf else PInf)"

text \<open>\<open>a / b\<close>; a zero divisor is \<open>+0\<close>.\<close>

fun js_div :: "jsnum \<Rightarrow> jsnum \<Rightarrow> jsnum" where
  "js_div NaN _ = NaN"
| "js_div _ NaN = NaN"
| "js_div (Fin x) (Fin y) =
     (if y = 0 then (if x = 0 then NaN else if 0 < x then PInf else NInf)
      else fl (x / y))"
| "js_div (Fin x) PInf = Fin 0"
| "js_div (Fin x) NInf = Fin 0"
| "js_div PInf (Fin y) = (if 0 \<le> y then PInf else NInf)"
| "js_div NInf (Fin y) = (if 0 \<le> y then NInf else PInf)"
| "js_div PInf _ = NaN"
| "js_div NInf _ = NaN"

text \<open>\<open>Math.abs\<close>\<close>

fun js_abs :: "jsnum \<Rightarrow> jsnum" where
  "js_abs NaN = NaN"
| "js_abs PInf = PInf"
| "js_abs NInf = PInf"
| "js_abs (Fin x) = Fin \<bar>x\<bar>"

text \<open>\<open>a < b\<close>\<close>

fun js_lt :: "jsnum \<Rightarrow> jsnum \<Rightarrow> bool" where
  "js_lt NaN _ = False"
| "js_lt _ NaN = False"
| "js_lt (Fin x) (Fin y) = (x < y)"
| "js_lt _ NInf = False"
| "js_lt PInf _ = False"
| "js_lt NInf _ = True"
| "js_lt (Fin x) PInf = True"

text \<open>\<open>a <= b\<close>\<close>

fun js_le :: "jsnum \<Rightarrow> jsnum \<Rightarrow> bool" where
  "js_le NaN _ = False"
| "js_le _ NaN = False"
| "js_le (Fin x) (Fin y) = (x \<le> y)"
| "js_le NInf _ = True"
| "js_le _ PInf = True"
| "js_le _ NInf = False"
| "js_le PInf _ = False"

text \<open>\<open>a >= b\<close>\<close>

definition js_ge :: "jsnum \<Rightarrow> jsnum \<Rightarrow> bool" where
  "js_ge a b = js_le b a"

text \<open>\<open>Math.round\<close>: the nearest integer, a half rounding up. The result is exact:
  the nearest integer of a double is a double.\<close>

fun js_round :: "jsnum \<Rightarrow> jsnum" where
  "js_round (Fin x) = Fin (of_int \<lfloor>x + 1 / 2\<rfloor>)"
| "js_round v = v"

text \<open>\<open>!v\<close> for a number: \<open>0\<close> and \<open>NaN\<close> are falsy.\<close>

fun js_falsy :: "jsnum \<Rightarrow> bool" where
  "js_falsy NaN = True"
| "js_falsy (Fin x) = (x = 0)"
| "js_falsy _ = False"

text \<open>
  \<open>parseFloat\<close> and \<open>Number\<close> applied to a value that already is a number give that
  number back.
\<close>

definition parseFloat :: "jsnum \<Rightarrow> jsnum" where
  "parseFloat v = v"

definition Number :: "jsnum \<Rightarrow> jsnum" where
  "Number v = v"

definition Number_isNaN :: "jsnum \<Rightarrow> bool" where
  "Number_isNaN v = (v = NaN)"

text \<open>
  The errors a call can end in. \<open>TypeError\<close> is what the JavaScript runtime throws
  (a method missing on the receiver, \<open>reduce\<close> of an empty array with no initial
  value). \<open>InvalidArgument\<close> is the error kind the specification names; no path of
  the source raises it.
\<close>

datatype error = TypeError | InvalidArgument

section \<open>Unit/Scale math\<close>

text \<open>
  \<open>METERS_PER_UNIT\<close> is a table of the OpenLayers library, taken as a parameter: a
  partial map from unit names to meters. A unit without an entry reads as
  \<open>undefined\<close>, which arithmetic turns into \<open>NaN\<close>. The decimal literals
  \<open>25.4\<close>, \<open>0.28\<close> and \<open>39.37\<close> denote the doubles nearest to them.
\<close>

type_synonym metersPerUnit = "string \<Rightarrow> real option"

definition lookupUnit :: "metersPerUnit \<Rightarrow> string \<Rightarrow> jsnum" where
  "lookupUnit METERS_PER_UNIT units =
     (case METERS_PER_UNIT units of None \<Rightarrow> NaN | Some m \<Rightarrow> Fin m)"

definition getResolutionForScale :: "metersPerUnit \<Rightarrow> jsnum \<Rightarrow> string \<Rightarrow> jsnum" where
  "getResolutionForScale METERS_PER_UNIT scale units =
     (let dpi = js_div (fl (254 / 10)) (fl (28 / 100));
          mpu = lookupUnit METERS_PER_UNIT units;
          inchesPerMeter = fl (3937 / 100)
      in js_div (parseFloat scale) (js_mul (js_mul mpu inchesPerMeter) dpi))"

definition getScaleForResolution :: "metersPerUnit \<Rightarrow> jsnum \<Rightarrow> string \<Rightarrow> jsnum" where
  "getScaleForResolution METERS_PER_UNIT resolution units =
     (let dpi = js_div (fl (254 / 10)) (fl (28 / 100));
          mpu = lookupUnit METERS_PER_UNIT units;
          inchesPerMeter = fl (3937 / 100)
      in js_mul (js_mul (js_mul (parseFloat resolution) mpu) inchesPerMeter) dpi)"

text \<open>
  \<open>roundScale\<close>: four independent \<open>if\<close> statements assign the local variable, which
  starts \<open>undefined\<close> (\<open>None\<close>); the second argument of \<open>Math.round\<close> is ignored by
  JavaScript.
\<close>

definition roundScale :: "jsnum \<Rightarrow> jsnum option" where
  "roundScale scale =
     (let r0 = None;
          r1 = (if js_lt scale (Fin 100) then Some (js_round scale) else r0);
          r2 = (if js_ge scale (Fin 100) \<and> js_lt scale (Fin 10000)
                then Some (js_mul (js_round (js_div scale (Fin 10))) (Fin 10)) else r1);
          r3 = (if js_ge scale (Fin 10000) \<and> js_lt scale (Fin 1000000)
                then Some (js_mul (js_round (js_div scale (Fin 100))) (Fin 100)) else r2);
          r4 = (if js_ge scale (Fin 1000000)
                then Some (js_mul (js_round (js_div scale (Fin 1000))) (Fin 1000)) else r3)
      in r4)"

section \<open>The scene: layers, groups, sources, views and maps\<close>

text \<open>
  A WMS source carries its request parameters; only \<open>LAYERS\<close> is read, \<open>None\<close>
  when the parameter is not set. \<open>TileWMS.getUrls()\<close> is an array or \<open>null\<close>,
  \<open>ImageWMS.getUrl()\<close> a string or \<open>undefined\<close>.
\<close>

datatype olSource =
    OlSourceTileWMS (getUrls: "string list option") (paramLAYERS: "string option")
  | OlSourceImageWMS (getUrl: "string option") (paramLAYERS: "string option")
  | OlSourceOther

text \<open>
  A layer is a leaf (\<open>ol/layer/Layer\<close>, with an optional source) or a group
  (\<open>ol/layer/Group\<close>, with its ordered children). \<open>ol_uid\<close> is the identifier
  OpenLayers gives every object: two references denote the same object exactly when
  their \<open>ol_uid\<close> agree, which is how JavaScript's \<open>===\<close> on objects is read.
\<close>

datatype layer =
    OlLayer (ol_uid: nat) (layerName: string) (getMinResolution: jsnum)
      (getMaxResolution: jsnum) (getSource: "olSource option")
  | OlLayerGroup (ol_uid: nat) (layerName: string) (getMinResolution: jsnum)
      (getMaxResolution: jsnum) (getLayers: "layer list")

fun isGroup :: "layer \<Rightarrow> bool" where
  "isGroup (OlLayerGroup _ _ _ _ _) = True"
| "isGroup (OlLayer _ _ _ _ _) = False"

datatype olView = OlView (getResolution: "jsnum option")

datatype olMap = OlMap (getLayerGroup: layer) (getView: "olView option")

section \<open>Layer tree walker\<close>

text \<open>
  \<open>getLayersByGroup\<close>: the \<open>forEach\<close> over the children is the loop
  \<open>pushLayers\<close>, with \<open>layerCandidates\<close> as its accumulator. The \<open>map\<close> argument is
  passed along and never read. A leaf layer has no \<open>getLayers\<close> method, so calling
  the function on one throws.
\<close>

fun getLayersByGroup :: "olMap \<Rightarrow> layer \<Rightarrow> error + layer list"
  and pushLayers :: "olMap \<Rightarrow> layer list \<Rightarrow> layer list \<Rightarrow> error + layer list" where
  "getLayersByGroup m (OlLayer u n mn mx s) = Inl TypeError"
| "getLayersByGroup m (OlLayerGroup u n mn mx ls) = pushLayers m ls []"
| "pushLayers m [] layerCandidates = Inr layerCandidates"
| "pushLayers m (l # ls) layerCandidates =
     (if isGroup l
      then (case getLayersByGroup m l of
              Inl e \<Rightarrow> Inl e
            | Inr sub \<Rightarrow> pushLayers m ls (layerCandidates @ sub))
      else pushLayers m ls (layerCandidates @ [l]))"

text \<open>
  The specification's words for the flattened view: the leaves of a tree in depth-first
  order, and their number.
\<close>

fun leafLayers :: "layer \<Rightarrow> layer list" where
  "leafLayers (OlLayer u n mn mx s) = [OlLayer u n mn mx s]"
| "leafLayers (OlLayerGroup u n mn mx ls) = concat (map leafLayers ls)"

fun countLeaves :: "layer \<Rightarrow> nat" where
  "countLeaves (OlLayer u n mn mx s) = 1"
| "countLeaves (OlLayerGroup u n mn mx ls) = sum_list (map countLeaves ls)"

text \<open>
  \<open>Array.prototype.indexOf\<close> on an array of layers: the first index holding the same
  object, \<open>-1\<close> when there is none.
\<close>

fun indexOfFrom :: "layer list \<Rightarrow> layer \<Rightarrow> int \<Rightarrow> int" where
  "indexOfFrom [] layer i = - 1"
| "indexOfFrom (l # ls) layer i =
     (if ol_uid l = ol_uid layer then i else indexOfFrom ls layer (i + 1))"

definition indexOf :: "layer list \<Rightarrow> layer \<Rightarrow> int" where
  "indexOf layers layer = indexOfFrom layers layer 0"

text \<open>
  The object \<open>getLayerPositionInfo\<close> returns: \<open>{}\<close> has neither key, a match has
  both.
\<close>

record positionInfo =
  position :: "int option"
  groupLayer :: "layer option"

text \<open>The second argument of \<open>getLayerPositionInfo\<close>: a layer (a group, if the call
  is to succeed) or a map.\<close>

datatype groupLayerOrMap = OfLayer layer | OfMap olMap

text \<open>
  \<open>getLayerPositionInfo\<close>. Its first statement picks the group to search: the
  argument itself when it is a group, the result of \<open>getLayerGroup()\<close> otherwise.
  The rest of the body, from \<open>groupLayer.getLayers()\<close> on, is \<open>positionInGroup\<close>;
  a leaf layer has neither \<open>getLayerGroup\<close> nor \<open>getLayers\<close>, so the call throws
  on one. The \<open>forEach\<close> over the children is the loop \<open>searchChildren\<close>, which
  threads the variable \<open>info\<close>: it visits every child, and calls
  \<open>getLayerPositionInfo\<close> again only on a child that is a group (which then is the
  group searched) and only while \<open>info.groupLayer\<close> is not set.
\<close>

fun positionInGroup :: "layer \<Rightarrow> layer \<Rightarrow> error + positionInfo"
  and searchChildren :: "layer \<Rightarrow> layer list \<Rightarrow> positionInfo \<Rightarrow> error + positionInfo" where
  "positionInGroup layer (OlLayer u n mn mx s) = Inl TypeError"
| "positionInGroup layer (OlLayerGroup u n mn mx layers) =
     (if indexOf layers layer < 0
      then searchChildren layer layers \<lparr>position = None, groupLayer = None\<rparr>
      else Inr \<lparr>position = Some (indexOf layers layer),
                groupLayer = Some (OlLayerGroup u n mn mx layers)\<rparr>)"
| "searchChildren layer [] info = Inr info"
| "searchChildren layer (childLayer # rest) info =
     (if isGroup childLayer \<and> groupLayer info = None
      then (case positionInGroup layer childLayer of
              Inl e \<Rightarrow> Inl e
            | Inr info' \<Rightarrow> searchChildren layer rest info')
      else searchChildren layer rest info)"

definition getLayerPositionInfo :: "layer \<Rightarrow> groupLayerOrMap \<Rightarrow> error + positionInfo" where
  "getLayerPositionInfo layer groupLayerOrMap =
     (let groupLayer = (case groupLayerOrMap of
                          OfLayer g \<Rightarrow> g
                        | OfMap m \<Rightarrow> getLayerGroup m)
      in positionInGroup layer groupLayer)"

text \<open>
  The specification's words for "present anywhere in the subtree": the layers below a
  root, in depth-first order, and whether one of them is the given layer.
\<close>

fun descendants :: "layer \<Rightarrow> layer list" where
  "descendants (OlLayer u n mn mx s) = []"
| "descendants (OlLayerGroup u n mn mx ls) = concat (map (\<lambda>c. c # descendants c) ls)"

definition occursBelow :: "layer \<Rightarrow> layer \<Rightarrow> bool" where
  "occursBelow layer rootLayer =
     list_ex (\<lambda>d. ol_uid d = ol_uid layer) (descendants rootLayer)"

text \<open>
  What a match says, in the specification's words: \<open>info\<close> names an owning group,
  which is the root or lies below it, and the index of the layer among that group's
  immediate children (the first index holding the layer).
\<close>

definition locates :: "positionInfo \<Rightarrow> layer \<Rightarrow> layer \<Rightarrow> bool" where
  "locates info layer rootLayer =
     (case (position info, groupLayer info) of
        (Some p, Some grp) \<Rightarrow>
          isGroup grp \<and> grp \<in> set (rootLayer # descendants rootLayer)
          \<and> 0 \<le> p \<and> nat p < length (getLayers grp)
          \<and> ol_uid (getLayers grp ! nat p) = ol_uid layer
          \<and> list_all (\<lambda>l. ol_uid l \<noteq> ol_uid layer) (take (nat p) (getLayers grp))
      | _ \<Rightarrow> False)"

section \<open>Legend URL builder\<close>

text \<open>
  A JavaScript object with string keys, as the list of its properties in insertion
  order; a value is a string or \<open>undefined\<close> (\<open>None\<close>). \<open>Object.assign\<close> writes
  the properties of its second argument into the first: a key already there keeps its
  place and takes the new value, a new key goes to the end. (JavaScript enumerates keys
  that are array indices before the others; the model keeps insertion order for all.)
\<close>

type_synonym jsObject = "(string \<times> string option) list"

fun setProperty :: "string \<Rightarrow> string option \<Rightarrow> jsObject \<Rightarrow> jsObject" where
  "setProperty k v [] = [(k, v)]"
| "setProperty k v ((k', v') # ps) =
     (if k' = k then (k, v) # ps else (k', v') # setProperty k v ps)"

fun assignAll :: "jsObject \<Rightarrow> jsObject \<Rightarrow> jsObject" where
  "assignAll target [] = target"
| "assignAll target ((k, v) # src) = assignAll (setProperty k v target) src"

fun Object_assign :: "jsObject \<Rightarrow> jsObject option \<Rightarrow> jsObject" where
  "Object_assign target None = target"
| "Object_assign target (Some src) = assignAll target src"

text \<open>A template literal prints \<open>undefined\<close> for a value that is not there.\<close>

fun toString :: "string option \<Rightarrow> string" where
  "toString None = ''undefined''"
| "toString (Some s) = s"

fun isTileWMS :: "olSource \<Rightarrow> bool" where
  "isTileWMS (OlSourceTileWMS _ _) = True"
| "isTileWMS _ = False"

fun isImageWMS :: "olSource \<Rightarrow> bool" where
  "isImageWMS (OlSourceImageWMS _ _) = True"
| "isImageWMS _ = False"

text \<open>\<open>source.getUrls() ? source.getUrls()[0] : ''\<close>: \<open>null\<close> is falsy, an array
  is truthy even when empty, and element 0 of an empty array is \<open>undefined\<close>.\<close>

fun firstUrl :: "string list option \<Rightarrow> string option" where
  "firstUrl None = Some []"
| "firstUrl (Some []) = None"
| "firstUrl (Some (u # us)) = Some u"

text \<open>
  \<open>getLegendGraphicUrl\<close>. \<open>UrlUtil.objectToRequestString\<close> belongs to another
  package and is a parameter. The result is the URL, or \<open>undefined\<close> (\<open>None\<close>)
  after a logged message. A group has no \<open>getSource\<close> method, so the call on one
  throws before the checks of the source.
\<close>

fun getLegendGraphicUrl ::
  "(jsObject \<Rightarrow> string) \<Rightarrow> layer option \<Rightarrow> jsObject option \<Rightarrow> error + string option" where
  "getLegendGraphicUrl objectToRequestString None extraParams = Inr None"
| "getLegendGraphicUrl objectToRequestString (Some (OlLayerGroup u n mn mx ls)) extraParams =
     Inl TypeError"
| "getLegendGraphicUrl objectToRequestString (Some (OlLayer u n mn mx None)) extraParams =
     Inr None"
| "getLegendGraphicUrl objectToRequestString (Some (OlLayer u n mn mx (Some source))) extraParams =
     (let isTiledWMS = isTileWMS source;
          isImageWMS = isImageWMS source
      in if isTiledWMS \<or> isImageWMS
         then (let url = (if isTiledWMS then firstUrl (getUrls source) else getUrl source);
                   params = [(''LAYER'', paramLAYERS source),
                             (''VERSION'', Some ''1.3.0''),
                             (''SERVICE'', Some ''WMS''),
                             (''REQUEST'', Some ''getLegendGraphic''),
                             (''FORMAT'', Some ''image/png'')];
                   queryString = objectToRequestString (Object_assign params extraParams)
               in Inr (Some (if CHR ''?'' \<in> set (toString url)
                             then toString url @ ''&'' @ queryString
                             else toString url @ ''?'' @ queryString)))
         else Inr None)"

text \<open>
  Modelled from the spec: \<open>objectToRequestString\<close>, the query-string encoder, is not
  part of this repository. This is the query-string form as the specification's example
  URL spells it: \<open>key=value\<close> pairs joined by \<open>&\<close>, no character escaped. Only the
  examples use it.
\<close>

fun plainRequestString :: "jsObject \<Rightarrow> string" where
  "plainRequestString [] = []"
| "plainRequestString [(k, v)] = k @ ''='' @ toString v"
| "plainRequestString ((k, v) # ps) = k @ ''='' @ toString v @ ''&'' @ plainRequestString ps"

section \<open>Resolution range\<close>

text \<open>
  \<open>layerInResolutionRange\<close>. \<open>map && map.getView()\<close> and
  \<open>mapView && mapView.getResolution()\<close> are \<open>None\<close> when what they read is not
  there; \<open>!currentRes\<close> holds for \<open>undefined\<close>, \<open>0\<close> and \<open>NaN\<close>.
\<close>

definition layerInResolutionRange :: "layer option \<Rightarrow> olMap option \<Rightarrow> bool" where
  "layerInResolutionRange layer olmap =
     (let mapView = (case olmap of None \<Rightarrow> None | Some m \<Rightarrow> getView m);
          currentRes = (case mapView of None \<Rightarrow> None | Some v \<Rightarrow> getResolution v)
      in case (layer, mapView, currentRes) of
           (Some l, Some v, Some r) \<Rightarrow>
             (if js_falsy r then False
              else (let layerMinRes = getMinResolution l;
                        layerMaxRes = getMaxResolution l;
                        inside = (js_ge r layerMinRes \<and> js_lt r layerMaxRes)
                    in inside))
         | _ \<Rightarrow> False)"

section \<open>Zoom resolver\<close>

text \<open>\<open>Array.prototype.reduce\<close> without an initial value: it throws on an empty
  array, and starts from the first element otherwise.\<close>

fun reduce :: "('a \<Rightarrow> 'a \<Rightarrow> 'a) \<Rightarrow> 'a list \<Rightarrow> error + 'a" where
  "reduce f [] = Inl TypeError"
| "reduce f (x # xs) = Inr (foldl f x xs)"

text \<open>lodash's \<open>findIndex\<close>: the first index whose element satisfies the predicate,
  \<open>-1\<close> when there is none.\<close>

fun findIndexFrom :: "('a \<Rightarrow> bool) \<Rightarrow> 'a list \<Rightarrow> int \<Rightarrow> int" where
  "findIndexFrom p [] i = - 1"
| "findIndexFrom p (x # xs) i = (if p x then i else findIndexFrom p xs (i + 1))"

definition findIndex :: "'a list \<Rightarrow> ('a \<Rightarrow> bool) \<Rightarrow> int" where
  "findIndex xs p = findIndexFrom p xs 0"

text \<open>The callback of the reduction: keep \<open>prev\<close> unless the current element is
  strictly closer to the calculated resolution.\<close>

definition closer :: "jsnum \<Rightarrow> jsnum \<Rightarrow> jsnum \<Rightarrow> jsnum" where
  "closer calculatedResolution prev current =
     (if js_lt (js_abs (js_sub current calculatedResolution))
               (js_abs (js_sub prev calculatedResolution))
      then current else prev)"

text \<open>
  \<open>getZoomForScale\<close>; \<open>units\<close> is \<open>'m'\<close> when the argument is left out
  (\<open>None\<close>), and the literal \<open>1e-10\<close> is the double nearest to it.
\<close>

definition getZoomForScale ::
  "metersPerUnit \<Rightarrow> jsnum \<Rightarrow> jsnum list \<Rightarrow> string option \<Rightarrow> error + int" where
  "getZoomForScale METERS_PER_UNIT scale resolutions unitsArg =
     (let units = (case unitsArg of None \<Rightarrow> ''m'' | Some u \<Rightarrow> u)
      in if Number_isNaN (Number scale) then Inr 0
         else if js_lt scale (Fin 0) then Inr 0
         else (let calculatedResolution = getResolutionForScale METERS_PER_UNIT scale units
               in case reduce (closer calculatedResolution) resolutions of
                    Inl e \<Rightarrow> Inl e
                  | Inr closestVal \<Rightarrow>
                      Inr (findIndex resolutions
                             (\<lambda>entry. js_le (js_abs (js_sub entry closestVal)) (fl (1 / 10 ^ 10))))))"

text \<open>
  The specification's words for the entry the scan selects. \<open>absDiff a b\<close> is the
  absolute difference as the program computes it, \<open>Math.abs(a - b)\<close>.
  \<open>nearestIndex\<close> is the index of the ladder entry with minimum absolute difference
  to the resolution, the earliest one on a tie: the first entry whose difference no
  entry of the ladder undercuts.
\<close>

definition absDiff :: "jsnum \<Rightarrow> jsnum \<Rightarrow> jsnum" where
  "absDiff a b = js_abs (js_sub a b)"

definition nearestIndex :: "jsnum \<Rightarrow> jsnum list \<Rightarrow> nat" where
  "nearestIndex c rs =
     length (takeWhile (\<lambda>x. list_ex (\<lambda>y. js_lt (absDiff y c) (absDiff x c)) rs) rs)"

section \<open>The scene of the specification's examples\<close>

text \<open>\<open>Group1[LayerA, Group2[LayerB, LayerC]]\<close>, with the defaults of OpenLayers for
  the resolution bounds.\<close>

definition LayerA :: layer where
  "LayerA = OlLayer 1 ''LayerA'' (Fin 0) PInf None"

definition LayerB :: layer where
  "LayerB = OlLayer 2 ''LayerB'' (Fin 0) PInf None"

definition LayerC :: layer where
  "LayerC = OlLayer 3 ''LayerC'' (Fin 0) PInf None"

definition Group2 :: layer where
  "Group2 = OlLayerGroup 4 ''Group2'' (Fin 0) PInf [LayerB, LayerC]"

definition Group1 :: layer where
  "Group1 = OlLayerGroup 5 ''Group1'' (Fin 0) PInf [LayerA, Group2]"

text \<open>A table with the entry of OpenLayers for meters.\<close>

definition metersOnly :: metersPerUnit where
  "metersOnly = [''m'' \<mapsto> 1]"

section \<open>Properties of double rounding\<close>

lemma rne_of_int: "rne (of_int n) = n"
  by (simp add: rne_def)

lemma rne_error: "\<bar>of_int (rne q) - q\<bar> \<le> 1 / 2"
  unfolding rne_def Let_def by (auto; linarith)

lemma rne_near: "\<bar>q - of_int n\<bar> < 1 / 2 \<Longrightarrow> rne q = n"
proof -
  assume a: "\<bar>q - of_int n\<bar> < 1 / 2"
  have "\<bar>of_int (rne q) - q\<bar> \<le> 1 / 2" by (rule rne_error)
  with a have "\<bar>(of_int (rne q) :: real) - of_int n\<bar> < 1" by linarith
  then have "\<bar>rne q - n\<bar> < 1" by (metis of_int_diff of_int_abs of_int_less_1_iff)
  then show ?thesis by simp
qed

lemma rne_lower: "of_int N \<le> q \<Longrightarrow> N \<le> rne q"
  unfolding rne_def Let_def by (auto simp: le_floor_iff; linarith)

lemma rne_upper: "q \<le> of_int N \<Longrightarrow> rne q \<le> N"
proof -
  assume a: "q \<le> of_int N"
  have "\<bar>of_int (rne q) - q\<bar> \<le> 1 / 2" by (rule rne_error)
  with a have "(of_int (rne q) :: real) < of_int N + 1" by linarith
  then have "rne q < N + 1" by (metis of_int_1 of_int_add of_int_less_iff)
  then show ?thesis by simp
qed

lemma binade:
  assumes "x \<noteq> 0" and "2 powi e \<le> \<bar>x\<bar>" and "\<bar>x\<bar> < 2 powi (e + 1)"
  shows "\<lfloor>log 2 \<bar>x\<bar>\<rfloor> = e"
proof -
  have "(2::real) powr real_of_int k = 2 powi k" for k
    by (simp add: powr_real_of_int')
  moreover have "real_of_int e + 1 = real_of_int (e + 1)" by simp
  ultimately show ?thesis
    using assms floor_log_eq_powr_iff [of "\<bar>x\<bar>" 2 e] by (simp del: of_int_add)
qed

lemma binade_bounds:
  assumes "x \<noteq> 0"
  shows "2 powi \<lfloor>log 2 \<bar>x\<bar>\<rfloor> \<le> \<bar>x\<bar> \<and> \<bar>x\<bar> < 2 powi (\<lfloor>log 2 \<bar>x\<bar>\<rfloor> + 1)"
proof -
  have "(2::real) powr real_of_int k = 2 powi k" for k
    by (simp add: powr_real_of_int')
  moreover have "real_of_int e + 1 = real_of_int (e + 1)" for e by simp
  ultimately show ?thesis
    using assms floor_log_eq_powr_iff [of "\<bar>x\<bar>" 2 "\<lfloor>log 2 \<bar>x\<bar>\<rfloor>"] by (simp del: of_int_add)
qed

lemma fl_zero: "fl 0 = Fin 0"
  by (simp add: fl_def)

text \<open>Evaluation in a normal binade, away from a tie.\<close>

lemma fl_eval:
  assumes "x \<noteq> 0" and "- 1022 \<le> e"
    and "2 powi e \<le> \<bar>x\<bar>" and "\<bar>x\<bar> < 2 powi (e + 1)"
    and "\<bar>x / 2 powi (e - 52) - of_int n\<bar> < 1 / 2"
    and "\<bar>of_int n * 2 powi (e - 52)\<bar> < (2::real) ^ 1024"
  shows "fl x = Fin (of_int n * 2 powi (e - 52))"
proof -
  have e: "max \<lfloor>log 2 \<bar>x\<bar>\<rfloor> (- 1022) = e"
    using binade [OF assms(1,3,4)] assms(2) by simp
  have "rne (x / 2 powi (e - 52)) = n" using assms(5) by (rule rne_near)
  with e assms(1,6) show ?thesis by (simp add: fl_def Let_def)
qed

text \<open>The error of rounding in a normal binade is at most half a unit in the last place.\<close>

lemma fl_normal:
  assumes "x \<noteq> 0" and "- 1022 \<le> e" and "e \<le> 1022"
    and "2 powi e \<le> \<bar>x\<bar>" and "\<bar>x\<bar> < 2 powi (e + 1)"
  shows "\<exists>n. fl x = Fin (of_int n * 2 powi (e - 52))
           \<and> \<bar>of_int n * 2 powi (e - 52) - x\<bar> \<le> 2 powi (e - 53)"
proof -
  let ?u = "(2::real) powi (e - 52)"
  let ?n = "rne (x / ?u)"
  have upos: "0 < ?u" by simp
  have e: "max \<lfloor>log 2 \<bar>x\<bar>\<rfloor> (- 1022) = e"
    using binade [OF assms(1,4,5)] assms(2) by simp
  have "\<bar>of_int ?n - x / ?u\<bar> \<le> 1 / 2" by (rule rne_error)
  then have "\<bar>of_int ?n - x / ?u\<bar> * ?u \<le> 1 / 2 * ?u"
    using upos by (simp add: mult_right_mono)
  moreover have "\<bar>of_int ?n - x / ?u\<bar> * ?u = \<bar>of_int ?n * ?u - x\<bar>"
    using upos abs_mult_pos [of ?u "of_int ?n - x / ?u"] by (simp add: left_diff_distrib)
  moreover have half: "1 / 2 * ?u = 2 powi (e - 53)"
    using power_int_diff [of "2::real" "e - 52" 1] by simp
  ultimately have err: "\<bar>of_int ?n * ?u - x\<bar> \<le> 2 powi (e - 53)" by simp
  have "(2::real) powi (e - 53) \<le> 2 powi (e + 1)"
    by (intro power_int_increasing) simp_all
  moreover have "(2::real) powi (e + 1) \<le> 2 powi 1023"
    using assms(3) by (intro power_int_increasing) simp_all
  ultimately have "\<bar>of_int ?n * ?u\<bar> < 2 powi 1023 + 2 powi 1023"
    using err assms(5) by linarith
  then have "\<not> 2 ^ 1024 \<le> \<bar>of_int ?n * ?u\<bar>" by simp
  with e assms(1) have "fl x = Fin (of_int ?n * ?u)" by (simp add: fl_def Let_def)
  with err show ?thesis by blast
qed

text \<open>Too large a value overflows.\<close>

lemma fl_overflow:
  assumes "2 ^ 1024 \<le> \<bar>x\<bar>"
  shows "fl x = (if 0 < x then PInf else NInf)"
proof -
  have x0: "x \<noteq> 0" using assms by auto
  define b where "b = \<lfloor>log 2 \<bar>x\<bar>\<rfloor>"
  define u where "u = (2::real) powi (b - 52)"
  define q where "q = x / u"
  from binade_bounds [OF x0] have lo: "2 powi b \<le> \<bar>x\<bar>" and hi: "\<bar>x\<bar> < 2 powi (b + 1)"
    by (simp_all add: b_def)
  have "(2::real) powi 1024 < 2 powi (b + 1)" using assms hi by simp
  then have big: "1024 \<le> b"
    by (smt (verit) power_int_increasing)
  have upos: "0 < u" by (simp add: u_def)
  have split: "2 powi b = (2::real) ^ 52 * u"
    using power_int_add [of "2::real" 52 "b - 52"] by (simp add: u_def)
  have "\<bar>q\<bar> = \<bar>x\<bar> / u" using upos by (simp add: q_def)
  with lo split have qbig: "of_int (2 ^ 52) \<le> \<bar>q\<bar>" using upos by (simp add: pos_le_divide_eq)
  have "2 ^ 52 \<le> \<bar>rne q\<bar>"
  proof (cases "0 \<le> q")
    case True
    with qbig have "of_int (2 ^ 52) \<le> q" by simp
    from rne_lower [OF this] show ?thesis by simp
  next
    case False
    with qbig have "q \<le> of_int (- (2 ^ 52))" by simp
    from rne_upper [OF this] show ?thesis by simp
  qed
  then have "(of_int (2 ^ 52) :: real) \<le> of_int \<bar>rne q\<bar>" by (simp only: of_int_le_iff)
  then have "(2::real) ^ 52 \<le> \<bar>of_int (rne q)\<bar>" by simp
  then have "(2::real) ^ 52 * u \<le> \<bar>of_int (rne q)\<bar> * u"
    using upos by (simp only: mult_right_mono less_imp_le)
  moreover have "(2::real) powi 1024 \<le> 2 powi b"
    using big by (intro power_int_increasing) simp_all
  moreover have "\<bar>of_int (rne q) * u\<bar> = \<bar>of_int (rne q)\<bar> * u"
    using upos by (simp add: abs_mult)
  moreover have "(2::real) powi 1024 = 2 ^ 1024" by simp
  ultimately have "2 ^ 1024 \<le> \<bar>of_int (rne q) * u\<bar>"
    using split by linarith
  moreover have "max b (- 1022) = b" using big by simp
  ultimately show ?thesis
    using x0 unfolding fl_def Let_def b_def [symmetric] by (simp add: q_def u_def)
qed

text \<open>A value with at most 53 significant bits and a representable scaling is kept.\<close>

lemma fl_exact:
  assumes "\<bar>n\<bar> < 2 ^ 53" and "- 1074 \<le> j"
    and "\<bar>of_int n * 2 powi j\<bar> < (2::real) ^ 1024"
  shows "fl (of_int n * 2 powi j) = Fin (of_int n * 2 powi j)"
proof (cases "n = 0")
  case True
  then show ?thesis by (simp add: fl_zero)
next
  case False
  let ?x = "of_int n * (2::real) powi j"
  have x0: "?x \<noteq> 0" using False by simp
  let ?b = "\<lfloor>log 2 \<bar>?x\<bar>\<rfloor>"
  let ?e = "max ?b (- 1022)"
  from binade_bounds [OF x0] have lo: "2 powi ?b \<le> \<bar>?x\<bar>" by simp
  have "\<bar>?x\<bar> = of_int \<bar>n\<bar> * 2 powi j" by (simp add: abs_mult)
  also have "\<dots> < 2 ^ 53 * 2 powi j"
  proof -
    have "(of_int \<bar>n\<bar> :: real) < 2 ^ 53"
      using assms(1) by (metis of_int_less_iff of_int_numeral of_int_power)
    then show ?thesis by (simp add: mult_strict_right_mono)
  qed
  also have "\<dots> = 2 powi (53 + j)"
    using power_int_add [of "2::real" 53 j] by simp
  finally have "(2::real) powi ?b < 2 powi (53 + j)" using lo by simp
  then have "?b < 53 + j" by (smt (verit) power_int_increasing)
  with assms(2) have "0 \<le> j - ?e + 52" by simp
  then obtain k :: nat where k: "j - ?e + 52 = int k"
    using zero_le_imp_eq_int by blast
  have "2 powi j / (2::real) powi (?e - 52) = 2 powi (j - (?e - 52))"
    using power_int_diff [of "2::real" j "?e - 52"] by simp
  also have "j - (?e - 52) = int k" using k by simp
  finally have "2 powi j / (2::real) powi (?e - 52) = 2 ^ k" by simp
  then have "of_int n * (2 powi j / (2::real) powi (?e - 52)) = of_int n * 2 ^ k"
    by (rule arg_cong [where f = "\<lambda>t. of_int n * t"])
  then have q: "?x / 2 powi (?e - 52) = of_int (n * 2 ^ k)"
    by (simp only: times_divide_eq_right of_int_mult of_int_power of_int_numeral)
  have undo: "of_int (n * 2 ^ k) * (2::real) powi (?e - 52) = ?x"
    using q by (metis nonzero_divide_eq_eq power_int_eq_0_iff zero_neq_numeral)
  have "rne (?x / 2 powi (?e - 52)) = n * 2 ^ k" unfolding q by (rule rne_of_int)
  with undo x0 assms(3) show ?thesis
    unfolding fl_def Let_def by (simp del: of_int_mult of_int_power)
qed

text \<open>Integers below \<open>2 ^ 53\<close> are doubles.\<close>

lemma fl_int: "\<bar>n\<bar> < 2 ^ 53 \<Longrightarrow> fl (of_int n) = Fin (of_int n)"
proof -
  assume a: "\<bar>n\<bar> < 2 ^ 53"
  then have "\<bar>n\<bar> < 2 ^ 1024" by simp
  then have "(of_int \<bar>n\<bar> :: real) < of_int (2 ^ 1024)" by (simp only: of_int_less_iff)
  then have "\<bar>of_int n * 2 powi 0\<bar> < (2::real) ^ 1024" by simp
  from fl_exact [OF a _ this] show ?thesis by simp
qed

lemma fl_numeral: "numeral w < (2::int) ^ 53 \<Longrightarrow> fl (numeral w) = Fin (numeral w)"
  using fl_int [of "numeral w"] by simp

text \<open>The doubles of the literals, and of the constants computed from them.\<close>

lemma lit_3937: "fl (3937 / 100) = Fin (5540834916549263 / 2 ^ 47)"
  using fl_eval [of "3937 / 100" 5 5540834916549263] by simp

lemma lit_254: "fl (254 / 10) = Fin (7149464408450662 / 2 ^ 48)"
  using fl_eval [of "254 / 10" 4 7149464408450662] by simp

lemma lit_028: "fl (28 / 100) = Fin (5044031582654956 / 2 ^ 54)"
  using fl_eval [of "28 / 100" "- 2" 5044031582654956] by simp

lemma lit_eps: "fl (1 / 10 ^ 10) = Fin (7737125245533627 / 2 ^ 86)"
  using fl_eval [of "1 / 10 ^ 10" "- 34" 7737125245533627] by simp

lemma val_dpi:
  "fl ((7149464408450662 / 2 ^ 48) / (5044031582654956 / 2 ^ 54)) = Fin (6383450364688090 / 2 ^ 46)"
  using fl_eval [of "(7149464408450662 / 2 ^ 48) / (5044031582654956 / 2 ^ 54)" 6 6383450364688090]
  by simp

lemma val_K:
  "fl ((5540834916549263 / 2 ^ 47) * (6383450364688090 / 2 ^ 46)) = Fin (7853638776805315 / 2 ^ 41)"
  using fl_eval [of "(5540834916549263 / 2 ^ 47) * (6383450364688090 / 2 ^ 46)" 11 7853638776805315]
  by simp

text \<open>The same facts with their numerals in the form the simplifier gives them.\<close>

lemmas fl_literals =
  lit_3937 [simplified] lit_254 [simplified] lit_028 [simplified] lit_eps [simplified]
  val_dpi [simplified] val_K [simplified]

section \<open>Properties of the layer tree walker\<close>

lemma leafLayers_leaf: "\<not> isGroup l \<Longrightarrow> leafLayers l = [l]"
  by (cases l) auto

text \<open>The loop appends the leaves of the children it has visited to its accumulator.\<close>

lemma flatten_loop:
  "getLayersByGroup m g = (if isGroup g then Inr (leafLayers g) else Inl TypeError)"
  "pushLayers m ls acc = Inr (acc @ concat (map leafLayers ls))"
  by (induction m g and m ls acc rule: getLayersByGroup_pushLayers.induct)
     (auto simp: leafLayers_leaf)

lemma leafLayers_no_group: "list_all (\<lambda>l. \<not> isGroup l) (leafLayers g)"
  by (induction g rule: leafLayers.induct) (auto simp: list_all_iff)

lemma length_leafLayers: "length (leafLayers g) = countLeaves g"
  by (induction g rule: leafLayers.induct)
     (auto simp: length_concat comp_def intro: arg_cong[where f=sum_list])

text \<open>
  C1. For every group, \<open>getLayersByGroup\<close> returns without an error, and what it
  returns is the list of the leaf layers of the tree in depth-first order: no element
  is a group, and the length is the number of leaves of the tree. For
  \<open>Group1[LayerA, Group2[LayerB, LayerC]]\<close> the result is
  \<open>[LayerA, LayerB, LayerC]\<close>.
\<close>

theorem getLayersByGroup_leaves_only:
  "getLayersByGroup m (OlLayerGroup u n mn mx ls) = Inr (leafLayers (OlLayerGroup u n mn mx ls))
   \<and> list_all (\<lambda>l. \<not> isGroup l) (leafLayers (OlLayerGroup u n mn mx ls))
   \<and> length (leafLayers (OlLayerGroup u n mn mx ls)) = countLeaves (OlLayerGroup u n mn mx ls)
   \<and> getLayersByGroup m Group1 = Inr [LayerA, LayerB, LayerC]"
proof -
  have ex: "getLayersByGroup m Group1 = Inr [LayerA, LayerB, LayerC]"
    by (simp add: Group1_def Group2_def LayerA_def LayerB_def LayerC_def)
  show ?thesis
    using ex
    by (simp add: flatten_loop(1) leafLayers_no_group length_leafLayers
          del: leafLayers.simps countLeaves.simps)
qed

section \<open>Properties of the resolution range check\<close>

text \<open>
  C4, as the code has it. \<open>layerInResolutionRange\<close> is true exactly when the layer,
  the map, its view and the view's resolution are there, the resolution is truthy
  (neither \<open>0\<close> nor \<open>NaN\<close>) and it is at least the layer's minimum and below the
  layer's maximum resolution; for finite bounds that is \<open>r \<noteq> 0\<close> and
  \<open>r \<in> [lo, hi)\<close>. It is false when the layer, the map, the view or the resolution
  is missing. With bounds 10 and 20, the resolution 10 is in range, 20 and 9.999 are
  not.
\<close>

theorem layerInResolutionRange_iff:
  "(layerInResolutionRange layer olmap \<longleftrightarrow>
      (\<exists>l m v r. layer = Some l \<and> olmap = Some m \<and> getView m = Some v
          \<and> getResolution v = Some r \<and> \<not> js_falsy r
          \<and> js_ge r (getMinResolution l) \<and> js_lt r (getMaxResolution l)))
   \<and> (layerInResolutionRange (Some (OlLayer u n (Fin lo) (Fin hi) s))
         (Some (OlMap g (Some (OlView (Some (Fin r))))))
       \<longleftrightarrow> r \<noteq> 0 \<and> r \<in> {lo..<hi})
   \<and> \<not> layerInResolutionRange None olmap
   \<and> \<not> layerInResolutionRange layer None
   \<and> \<not> layerInResolutionRange layer (Some (OlMap g None))
   \<and> \<not> layerInResolutionRange layer (Some (OlMap g (Some (OlView None))))
   \<and> layerInResolutionRange (Some (OlLayer u n (Fin 10) (Fin 20) s))
         (Some (OlMap g (Some (OlView (Some (Fin 10))))))
   \<and> \<not> layerInResolutionRange (Some (OlLayer u n (Fin 10) (Fin 20) s))
         (Some (OlMap g (Some (OlView (Some (Fin 20))))))
   \<and> \<not> layerInResolutionRange (Some (OlLayer u n (Fin 10) (Fin 20) s))
         (Some (OlMap g (Some (OlView (Some (Fin (9999 / 1000)))))))"
  by (auto simp: layerInResolutionRange_def js_ge_def Let_def split: option.splits)

text \<open>
  The resolution \<open>0\<close> lies in \<open>[0, 20)\<close>, and the function answers false for it:
  \<open>!currentRes\<close> takes \<open>0\<close> for a missing resolution.
\<close>

theorem layerInResolutionRange_zero_counterexample:
  "\<not> layerInResolutionRange (Some (OlLayer 1 ''LayerA'' (Fin 0) (Fin 20) None))
        (Some (OlMap Group1 (Some (OlView (Some (Fin 0))))))
   \<and> (0::real) \<in> {0..<20}"
  by (simp add: layerInResolutionRange_def)

section \<open>Properties of the zoom resolver\<close>

lemma findIndexFrom_none: "\<forall>x\<in>set xs. \<not> p x \<Longrightarrow> findIndexFrom p xs i = - 1"
  by (induction xs arbitrary: i) auto

lemma findIndexFrom_first:
  "\<exists>x\<in>set xs. p x \<Longrightarrow> findIndexFrom p xs i = i + int (length (takeWhile (\<lambda>x. \<not> p x) xs))"
proof (induction xs arbitrary: i)
  case Nil
  then show ?case by simp
next
  case (Cons a xs)
  show ?case
  proof (cases "p a")
    case True
    then show ?thesis by simp
  next
    case False
    with Cons.prems have "\<exists>x\<in>set xs. p x" by auto
    from Cons.IH [OF this, of "i + 1"] False show ?thesis by simp
  qed
qed

text \<open>A scan for the first element that fails \<open>P\<close> stops inside the list, at such an
  element, when there is one.\<close>

lemma takeWhile_stops:
  assumes "y \<in> set ys" and "\<not> P y"
  shows "length (takeWhile P ys) < length ys \<and> \<not> P (ys ! length (takeWhile P ys))"
  using assms by (induction ys) auto

lemma foldl_closer_in: "foldl (closer c) x xs \<in> set (x # xs)"
proof (induction xs arbitrary: x)
  case Nil
  show ?case by simp
next
  case (Cons y ys)
  have "closer c x y = x \<or> closer c x y = y" by (simp add: closer_def)
  with Cons [of "closer c x y"] show ?case by auto
qed

lemma self_within_eps:
  "isFinite v \<Longrightarrow> js_le (js_abs (js_sub v v)) (fl (1 / 10 ^ 10))"
  by (cases v) (auto simp: fl_zero fl_literals)

text \<open>The factor of the unit \<open>'m'\<close> in the table \<open>metersOnly\<close>, as a double.\<close>

lemma meters_factor:
  "js_mul (js_mul (lookupUnit metersOnly ''m'') (fl (3937 / 100)))
          (js_div (fl (254 / 10)) (fl (28 / 100)))
     = Fin (7853638776805315 / 2 ^ 41)"
proof -
  have one: "fl (5540834916549263 / 2 ^ 47) = Fin (5540834916549263 / 2 ^ 47)"
    using fl_exact [of 5540834916549263 "- 47"] by simp
  show ?thesis
    using one by (simp add: lookupUnit_def metersOnly_def fl_literals)
qed

lemma resolution_of_zero: "getResolutionForScale metersOnly (Fin 0) ''m'' = Fin 0"
  using meters_factor by (simp add: getResolutionForScale_def parseFloat_def Let_def fl_zero)

lemma closer_not_finite: "\<not> isFinite c \<Longrightarrow> closer c prev cur = prev"
  by (cases c; cases prev; cases cur) (simp_all add: closer_def)

lemma foldl_closer_not_finite: "\<not> isFinite c \<Longrightarrow> foldl (closer c) x xs = x"
  by (induction xs) (simp_all add: closer_not_finite)

lemma resolution_of_infinity: "\<not> isFinite (getResolutionForScale METERS_PER_UNIT PInf units)"
proof -
  have "\<not> isFinite (js_div PInf d)" for d by (cases d) simp_all
  then show ?thesis by (simp add: getResolutionForScale_def parseFloat_def Let_def)
qed

text \<open>
  C6, as the code has it. With an empty ladder and a scale that passes the two guards
  (not \<open>NaN\<close>, not negative), \<open>getZoomForScale\<close> ends in the \<open>TypeError\<close>
  that \<open>reduce\<close> throws on an empty array: the function has no guard of its own.
\<close>

theorem getZoomForScale_empty_ladder:
  assumes "scale \<noteq> NaN" and "\<not> js_lt scale (Fin 0)"
  shows "getZoomForScale METERS_PER_UNIT scale [] unitsArg = Inl TypeError"
  using assms by (simp add: getZoomForScale_def Number_isNaN_def Number_def)

theorem getZoomForScale_empty_ladder_witness:
  "Fin 1 \<noteq> NaN \<and> \<not> js_lt (Fin 1) (Fin 0)
   \<and> getZoomForScale metersOnly (Fin 1) [] None = Inl TypeError"
  using getZoomForScale_empty_ladder [of "Fin 1" metersOnly None] by simp

text \<open>
  The scale 1 with an empty ladder: the error is the runtime's \<open>TypeError\<close>, not an
  \<open>InvalidArgument\<close>.
\<close>

theorem getZoomForScale_empty_ladder_counterexample:
  "getZoomForScale metersOnly (Fin 1) [] None = Inl TypeError
   \<and> getZoomForScale metersOnly (Fin 1) [] None \<noteq> Inl InvalidArgument"
  by (simp add: getZoomForScale_def Number_isNaN_def Number_def)

text \<open>
  C5, as the code has it. A scale that is \<open>NaN\<close> or negative (also
  \<open>-Infinity\<close>) gives zoom 0 through the two guards, whatever the ladder. The scale
  \<open>Infinity\<close> passes the guards; the calculated resolution is then not finite, every
  comparison of the scan fails, the first entry is kept, and the zoom is 0 when that
  first entry is finite. So for a non-empty ladder with a finite first entry every
  scale that is not finite, and every negative scale, gives zoom 0 and no error.
\<close>

theorem getZoomForScale_invalid_scale:
  "(scale = NaN \<or> js_lt scale (Fin 0) \<longrightarrow>
      getZoomForScale METERS_PER_UNIT scale resolutions unitsArg = Inr 0)
   \<and> (\<not> isFinite scale \<and> resolutions \<noteq> [] \<and> isFinite (hd resolutions) \<longrightarrow>
      getZoomForScale METERS_PER_UNIT scale resolutions unitsArg = Inr 0)"
proof -
  have guard: "getZoomForScale METERS_PER_UNIT scale resolutions unitsArg = Inr 0"
    if "scale = NaN \<or> js_lt scale (Fin 0)"
    using that by (auto simp: getZoomForScale_def Number_isNaN_def Number_def)
  have inf: "getZoomForScale METERS_PER_UNIT PInf resolutions unitsArg = Inr 0"
    if ne: "resolutions \<noteq> []" and fin: "isFinite (hd resolutions)"
  proof -
    from ne obtain x xs where rs: "resolutions = x # xs" by (cases resolutions) auto
    let ?c = "getResolutionForScale METERS_PER_UNIT PInf
                (case unitsArg of None \<Rightarrow> ''m'' | Some u \<Rightarrow> u)"
    have "reduce (closer ?c) resolutions = Inr x"
      by (simp add: rs foldl_closer_not_finite resolution_of_infinity)
    moreover have "findIndex resolutions (\<lambda>entry. js_le (js_abs (js_sub entry x)) (fl (1 / 10 ^ 10))) = 0"
      using fin self_within_eps [of x] by (simp add: rs findIndex_def)
    ultimately show ?thesis
      by (simp add: getZoomForScale_def Number_isNaN_def Number_def Let_def)
  qed
  have "getZoomForScale METERS_PER_UNIT scale resolutions unitsArg = Inr 0"
    if "\<not> isFinite scale" "resolutions \<noteq> []" "isFinite (hd resolutions)"
    using that guard inf by (cases scale) simp_all
  with guard show ?thesis by blast
qed

theorem getZoomForScale_invalid_scale_witness:
  "getZoomForScale metersOnly NaN [Fin 100, Fin 50] None = Inr 0
   \<and> getZoomForScale metersOnly (Fin (- 1)) [Fin 100, Fin 50] None = Inr 0
   \<and> getZoomForScale metersOnly PInf [Fin 100, Fin 50] None = Inr 0"
  using getZoomForScale_invalid_scale [of NaN metersOnly "[Fin 100, Fin 50]" None]
    getZoomForScale_invalid_scale [of "Fin (- 1)" metersOnly "[Fin 100, Fin 50]" None]
    getZoomForScale_invalid_scale [of PInf metersOnly "[Fin 100, Fin 50]" None]
  by simp

text \<open>
  The scale \<open>Infinity\<close> with the ladder \<open>[Infinity, 50]\<close>: the distance of the
  kept entry to itself is \<open>NaN\<close>, no entry is found and the result is \<open>-1\<close>.
\<close>

theorem getZoomForScale_infinite_scale_counterexample:
  "getZoomForScale metersOnly PInf [PInf, Fin 50] None = Inr (- 1)
   \<and> getZoomForScale metersOnly PInf [PInf, Fin 50] None \<noteq> Inr 0"
  using resolution_of_infinity [of metersOnly "''m''"]
  by (simp add: getZoomForScale_def Number_isNaN_def Number_def Let_def closer_not_finite
        findIndex_def fl_literals)

text \<open>
  C10, as the code has it. For a finite scale \<open>s \<ge> 0\<close> and a non-empty ladder of
  finite numbers, the reduction returns an element of the ladder, and the zoom is an
  index of the ladder: at least 0 and below its length, never \<open>-1\<close>.
\<close>

theorem getZoomForScale_index_in_range:
  assumes "resolutions \<noteq> []" and "list_all isFinite resolutions" and "0 \<le> s"
  shows "\<exists>closestVal zoom.
           reduce (closer (getResolutionForScale METERS_PER_UNIT (Fin s)
                     (case unitsArg of None \<Rightarrow> ''m'' | Some u \<Rightarrow> u))) resolutions
             = Inr closestVal
         \<and> closestVal \<in> set resolutions
         \<and> getZoomForScale METERS_PER_UNIT (Fin s) resolutions unitsArg = Inr zoom
         \<and> 0 \<le> zoom \<and> zoom < int (length resolutions)"
proof -
  let ?c = "getResolutionForScale METERS_PER_UNIT (Fin s)
              (case unitsArg of None \<Rightarrow> ''m'' | Some u \<Rightarrow> u)"
  let ?p = "\<lambda>v entry. js_le (js_abs (js_sub entry v)) (fl (1 / 10 ^ 10))"
  from assms(1) obtain x xs where rs: "resolutions = x # xs" by (cases resolutions) auto
  let ?v = "foldl (closer ?c) x xs"
  have red: "reduce (closer ?c) resolutions = Inr ?v" by (simp add: rs)
  have mem: "?v \<in> set resolutions" using foldl_closer_in [of ?c x xs] by (simp add: rs)
  with assms(2) have "isFinite ?v" by (simp add: list_all_iff)
  then have hit: "\<exists>e\<in>set resolutions. ?p ?v e" using mem self_within_eps by blast
  have zoom: "getZoomForScale METERS_PER_UNIT (Fin s) resolutions unitsArg
                = Inr (findIndex resolutions (?p ?v))"
    using assms(3) red by (simp add: getZoomForScale_def Number_isNaN_def Number_def Let_def)
  have idx: "findIndex resolutions (?p ?v) = int (length (takeWhile (\<lambda>e. \<not> ?p ?v e) resolutions))"
    using findIndexFrom_first [OF hit, of 0] by (simp add: findIndex_def)
  have "length (takeWhile (\<lambda>e. \<not> ?p ?v e) resolutions) < length resolutions"
    using takeWhile_stops [of _ resolutions "\<lambda>e. \<not> ?p ?v e"] hit by blast
  with red mem zoom idx show ?thesis by simp
qed

theorem getZoomForScale_index_in_range_witness:
  "[Fin 100, Fin 50] \<noteq> [] \<and> list_all isFinite [Fin 100, Fin 50] \<and> (0::real) \<le> 0
   \<and> getZoomForScale metersOnly (Fin 0) [Fin 100, Fin 50] None = Inr 1"
proof -
  have a: "[Fin 100, Fin 50] \<noteq> []" by simp
  have b: "list_all isFinite [Fin 100, Fin 50]" by simp
  have c: "(0::real) \<le> 0" by simp
  have v: "getZoomForScale metersOnly (Fin 0) [Fin 100, Fin 50] None = Inr 1"
    by (simp add: getZoomForScale_def Number_isNaN_def Number_def Let_def resolution_of_zero
          closer_def findIndex_def fl_numeral fl_zero fl_literals)
  from getZoomForScale_index_in_range [OF a b c, of metersOnly None] a b c v
  show ?thesis by blast
qed

text \<open>
  The ladder \<open>[Infinity]\<close>: the reduction returns its only entry, whose distance to
  itself is \<open>NaN\<close>, and the result is \<open>-1\<close>.
\<close>

theorem getZoomForScale_infinite_entry_counterexample:
  "getZoomForScale metersOnly (Fin 1) [PInf] None = Inr (- 1)"
  by (simp add: getZoomForScale_def Number_isNaN_def Number_def findIndex_def)

subsection \<open>The entry the scan selects\<close>

lemma fl_not_NaN: "fl x \<noteq> NaN"
  by (simp add: fl_def Let_def)

lemma js_lt_irrefl: "\<not> js_lt a a"
  by (cases a) simp_all

lemma js_lt_asym: "js_lt a b \<Longrightarrow> \<not> js_lt b a"
  by (cases a; cases b) simp_all

lemma js_lt_after: "js_lt a b \<Longrightarrow> \<not> js_lt c b \<Longrightarrow> c \<noteq> NaN \<Longrightarrow> js_lt a c"
  by (cases a; cases b; cases c) simp_all

lemma absDiff_NaN: "absDiff x NaN = NaN"
  by (cases x) (simp_all add: absDiff_def)

lemma absDiff_not_NaN: "isFinite x \<Longrightarrow> c \<noteq> NaN \<Longrightarrow> absDiff x c \<noteq> NaN"
proof -
  assume "isFinite x" "c \<noteq> NaN"
  then obtain a where x: "x = Fin a" by (cases x) simp_all
  show ?thesis
  proof (cases c)
    case (Fin b)
    then show ?thesis using fl_not_NaN [of "a - b"] by (cases "fl (a - b)") (simp_all add: absDiff_def x)
  qed (use \<open>c \<noteq> NaN\<close> in \<open>simp_all add: absDiff_def x\<close>)
qed

lemma closer_absDiff:
  "closer c p v = (if js_lt (absDiff v c) (absDiff p c) then v else p)"
  by (simp add: closer_def absDiff_def)

text \<open>The scan keeps the first entry among those of minimum distance.\<close>

lemma scan_first_minimum:
  assumes "\<forall>z\<in>set (x # xs). d z \<noteq> NaN"
  shows "\<exists>m\<le>length xs. foldl (\<lambda>p v. if js_lt (d v) (d p) then v else p) x xs = (x # xs) ! m
           \<and> (\<forall>j\<le>length xs. \<not> js_lt (d ((x # xs) ! j)) (d ((x # xs) ! m)))
           \<and> (\<forall>j<m. js_lt (d ((x # xs) ! m)) (d ((x # xs) ! j)))"
  using assms
proof (induction xs rule: rev_induct)
  case Nil
  show ?case by (simp add: js_lt_irrefl)
next
  case (snoc y ys)
  let ?pick = "\<lambda>p v. if js_lt (d v) (d p) then v else p"
  from snoc.prems have "\<forall>z\<in>set (x # ys). d z \<noteq> NaN" by simp
  from snoc.IH [OF this] obtain m where m: "m \<le> length ys" "foldl ?pick x ys = (x # ys) ! m"
    and least: "\<forall>j\<le>length ys. \<not> js_lt (d ((x # ys) ! j)) (d ((x # ys) ! m))"
    and first: "\<forall>j<m. js_lt (d ((x # ys) ! m)) (d ((x # ys) ! j))"
    by blast
  have old: "(x # ys @ [y]) ! j = (x # ys) ! j" if "j \<le> length ys" for j
    using that nth_append [of "x # ys" "[y]" j] by simp
  have new: "(x # ys @ [y]) ! Suc (length ys) = y"
    using nth_append_length [of "x # ys" y "[]"] by simp
  have nn: "d ((x # ys) ! j) \<noteq> NaN" if "j \<le> length ys" for j
    using that snoc.prems nth_mem [of j "x # ys"] by auto
  show ?case
  proof (cases "js_lt (d y) (d ((x # ys) ! m))")
    case True
    then have val: "foldl ?pick x (ys @ [y]) = y" using m by simp
    have "\<forall>j\<le>length (ys @ [y]). \<not> js_lt (d ((x # ys @ [y]) ! j)) (d y)"
    proof (intro allI impI)
      fix j assume "j \<le> length (ys @ [y])"
      then consider "j \<le> length ys" | "j = Suc (length ys)" by fastforce
      then show "\<not> js_lt (d ((x # ys @ [y]) ! j)) (d y)"
      proof cases
        case 1
        with least have "\<not> js_lt (d ((x # ys) ! j)) (d ((x # ys) ! m))" by simp
        from js_lt_after [OF True this nn [OF 1]] have "js_lt (d y) (d ((x # ys) ! j))" .
        then show ?thesis using old [OF 1] js_lt_asym by simp
      next
        case 2
        with new show ?thesis by (simp add: js_lt_irrefl)
      qed
    qed
    moreover have "\<forall>j<Suc (length ys). js_lt (d y) (d ((x # ys @ [y]) ! j))"
    proof (intro allI impI)
      fix j assume "j < Suc (length ys)"
      then have 1: "j \<le> length ys" by simp
      with least have "\<not> js_lt (d ((x # ys) ! j)) (d ((x # ys) ! m))" by simp
      from js_lt_after [OF True this nn [OF 1]] show "js_lt (d y) (d ((x # ys @ [y]) ! j))"
        using old [OF 1] by simp
    qed
    ultimately show ?thesis
      using val new by (intro exI [of _ "Suc (length ys)"]) simp
  next
    case False
    then have val: "foldl ?pick x (ys @ [y]) = (x # ys) ! m" using m by simp
    have "\<forall>j\<le>length (ys @ [y]). \<not> js_lt (d ((x # ys @ [y]) ! j)) (d ((x # ys) ! m))"
    proof (intro allI impI)
      fix j assume "j \<le> length (ys @ [y])"
      then consider "j \<le> length ys" | "j = Suc (length ys)" by fastforce
      then show "\<not> js_lt (d ((x # ys @ [y]) ! j)) (d ((x # ys) ! m))"
      proof cases
        case 1
        with least old show ?thesis by simp
      next
        case 2
        with new False show ?thesis by simp
      qed
    qed
    moreover have "\<forall>j<m. js_lt (d ((x # ys) ! m)) (d ((x # ys @ [y]) ! j))"
      using first old m(1) by simp
    ultimately show ?thesis
      using val m(1) old [of m] by (intro exI [of _ m]) simp
  qed
qed

lemma nearestIndex_unique:
  assumes "m < length rs"
    and "\<forall>j<length rs. \<not> js_lt (absDiff (rs ! j) c) (absDiff (rs ! m) c)"
    and "\<forall>j<m. js_lt (absDiff (rs ! m) c) (absDiff (rs ! j) c)"
  shows "nearestIndex c rs = m"
proof -
  let ?P = "\<lambda>x. list_ex (\<lambda>y. js_lt (absDiff y c) (absDiff x c)) rs"
  have "takeWhile ?P rs = take m rs"
  proof (rule takeWhile_eq_take_P_nth)
    show "?P (rs ! i)" if "i < m" "i < length rs" for i
      using that assms(1,3) by (auto simp: list_ex_iff intro!: bexI [of _ "rs ! m"])
    show "\<not> ?P (rs ! m)" if "m < length rs"
      using assms(2) by (auto simp: list_ex_iff in_set_conv_nth)
  qed
  then show ?thesis using assms(1) by (simp add: nearestIndex_def)
qed


lemma takeWhile_prefix_holds: "j < length (takeWhile P xs) \<Longrightarrow> P (xs ! j)"
proof -
  assume j: "j < length (takeWhile P xs)"
  then have "takeWhile P xs ! j \<in> set (takeWhile P xs)" by simp
  then have "P (takeWhile P xs ! j)" by (auto dest: set_takeWhileD)
  with j show ?thesis by (simp add: takeWhile_nth)
qed

lemma nearestIndex_props:
  assumes "rs \<noteq> []" and "list_all isFinite rs"
  shows "nearestIndex c rs < length rs
       \<and> (\<forall>j<length rs. \<not> js_lt (absDiff (rs ! j) c) (absDiff (rs ! nearestIndex c rs) c))
       \<and> (\<forall>j<nearestIndex c rs. js_lt (absDiff (rs ! nearestIndex c rs) c) (absDiff (rs ! j) c))
       \<and> foldl (closer c) (hd rs) (tl rs) = rs ! nearestIndex c rs"
proof -
  from assms(1) obtain x xs where rs: "rs = x # xs" by (cases rs) auto
  have pick: "closer c = (\<lambda>p v. if js_lt (absDiff v c) (absDiff p c) then v else p)"
    by (intro ext) (rule closer_absDiff)
  show ?thesis
  proof (cases "c = NaN")
    case True
    have "foldl (closer c) x xs = x"
      by (induction xs) (simp_all add: closer_absDiff True absDiff_NaN)
    moreover have "nearestIndex c rs = 0"
      by (intro nearestIndex_unique) (simp_all add: rs True absDiff_NaN)
    ultimately show ?thesis by (simp add: rs True absDiff_NaN)
  next
    case False
    with assms(2) have "\<forall>z\<in>set (x # xs). absDiff z c \<noteq> NaN"
      by (simp add: rs list_all_iff absDiff_not_NaN)
    from scan_first_minimum [of x xs "\<lambda>z. absDiff z c", OF this]
    obtain m where m: "m \<le> length xs"
      and val: "foldl (closer c) x xs = (x # xs) ! m"
      and least: "\<forall>j\<le>length xs. \<not> js_lt (absDiff ((x # xs) ! j) c) (absDiff ((x # xs) ! m) c)"
      and first: "\<forall>j<m. js_lt (absDiff ((x # xs) ! m) c) (absDiff ((x # xs) ! j) c)"
      unfolding pick by blast
    have "nearestIndex c rs = m"
      using m least first by (intro nearestIndex_unique) (simp_all add: rs less_Suc_eq_le)
    with m val least first show ?thesis
      by (simp add: rs less_Suc_eq_le)
  qed
qed

lemma zoom_scan:
  assumes ne: "rs \<noteq> []" and fin: "list_all isFinite rs" and pos: "0 \<le> s"
    and c: "c = getResolutionForScale METERS_PER_UNIT (Fin s)
                  (case unitsArg of None \<Rightarrow> ''m'' | Some u \<Rightarrow> u)"
  shows "\<exists>k. getZoomForScale METERS_PER_UNIT (Fin s) rs unitsArg = Inr (int k)
           \<and> k \<le> nearestIndex c rs
           \<and> js_le (absDiff (rs ! k) (rs ! nearestIndex c rs)) (fl (1 / 10 ^ 10))
           \<and> (\<forall>j<k. \<not> js_le (absDiff (rs ! j) (rs ! nearestIndex c rs)) (fl (1 / 10 ^ 10)))"
proof -
  let ?m = "nearestIndex c rs"
  let ?p = "\<lambda>entry. js_le (js_abs (js_sub entry (rs ! ?m))) (fl (1 / 10 ^ 10))"
  let ?k = "length (takeWhile (\<lambda>e. \<not> ?p e) rs)"
  from nearestIndex_props [OF ne fin, of c]
  have m: "?m < length rs"
    and val: "foldl (closer c) (hd rs) (tl rs) = rs ! ?m"
    by simp_all
  from ne have "reduce (closer c) rs = Inr (rs ! ?m)"
    using val by (cases rs) simp_all
  then have zoom: "getZoomForScale METERS_PER_UNIT (Fin s) rs unitsArg
                     = Inr (findIndex rs ?p)"
    using pos c by (simp add: getZoomForScale_def Number_isNaN_def Number_def Let_def)
  from m fin have "isFinite (rs ! ?m)" by (simp add: list_all_length)
  then have self: "?p (rs ! ?m)" by (rule self_within_eps)
  with m have hit: "\<exists>e\<in>set rs. ?p e" by (intro bexI [of _ "rs ! ?m"]) simp_all
  from findIndexFrom_first [OF hit, of 0]
  have idx: "findIndex rs ?p = int ?k" by (simp add: findIndex_def)
  have km: "?k \<le> ?m"
    using self takeWhile_prefix_holds [of ?m "\<lambda>e. \<not> ?p e" rs] by (auto simp: not_le [symmetric])
  with m have klen: "?k < length rs" by simp
  then have atk: "?p (rs ! ?k)"
    using nth_length_takeWhile [of "\<lambda>e. \<not> ?p e" rs] by simp
  have before: "\<forall>j<?k. \<not> ?p (rs ! j)"
    using takeWhile_prefix_holds [of _ "\<lambda>e. \<not> ?p e" rs] by blast
  from zoom idx km atk before show ?thesis
    by (intro exI [of _ ?k]) (simp add: absDiff_def)
qed

lemma fl_neg_numeral:
  "numeral w < (2::int) ^ 53 \<Longrightarrow> fl (- numeral w) = Fin (- numeral w)"
  using fl_int [of "- numeral w"] by simp

lemma val_50:
  "fl ((383478455898697 / 2 ^ 31) / (7853638776805315 / 2 ^ 41)) = Fin 50"
  using fl_eval [of "(383478455898697 / 2 ^ 31) / (7853638776805315 / 2 ^ 41)" 5 "50 * 2 ^ 47"]
  by simp

lemma val_75: "fl (- (75 / 2)) = Fin (- (75 / 2))"
  using fl_exact [of "- 75" "- 1"] by simp

lemma resolution_50:
  "getResolutionForScale metersOnly (Fin (383478455898697 / 2 ^ 31)) ''m'' = Fin 50"
  using meters_factor val_50 by (simp add: getResolutionForScale_def parseFloat_def Let_def)

lemma js_abs_nonneg: "\<not> js_lt (js_abs a) (Fin 0)"
  by (cases a) simp_all

lemma nearestIndex_example:
  "nearestIndex (Fin 50) [Fin 100, Fin 50, Fin 25, Fin (25 / 2)] = 1"
proof (intro nearestIndex_unique)
  show "1 < length [Fin 100, Fin 50, Fin 25, Fin (25 / 2)]" by simp
  show "\<forall>j<length [Fin 100, Fin 50, Fin 25, Fin (25 / 2)].
          \<not> js_lt (absDiff ([Fin 100, Fin 50, Fin 25, Fin (25 / 2)] ! j) (Fin 50))
                (absDiff ([Fin 100, Fin 50, Fin 25, Fin (25 / 2)] ! 1) (Fin 50))"
    by (simp add: less_Suc_eq numeral_eq_Suc absDiff_def fl_zero js_abs_nonneg)
  show "\<forall>j<1. js_lt (absDiff ([Fin 100, Fin 50, Fin 25, Fin (25 / 2)] ! 1) (Fin 50))
                   (absDiff ([Fin 100, Fin 50, Fin 25, Fin (25 / 2)] ! j) (Fin 50))"
    by (simp add: absDiff_def fl_zero fl_numeral)
qed


text \<open>
  C2, as the code has it. For a finite scale \<open>s \<ge> 0\<close> with calculated resolution
  \<open>c\<close> and a non-empty ladder of finite numbers, \<open>getZoomForScale\<close> returns an
  index \<open>k\<close> of the ladder. Differences are the ones the program computes, in double
  arithmetic. With \<open>m\<close> the index of the entry of minimum absolute difference to
  \<open>c\<close> (no entry has a smaller difference, every earlier entry a larger one),
  \<open>k\<close> is the first index whose entry is within \<open>1e-10\<close> of entry \<open>m\<close>; so
  \<open>k \<le> m\<close>, and \<open>k = m\<close> when no earlier entry is within \<open>1e-10\<close> of entry
  \<open>m\<close>. For the ladder \<open>[100, 50, 25, 12.5]\<close> and \<open>c = 50\<close> the result is 1.
\<close>

theorem getZoomForScale_nearest:
  assumes "rs \<noteq> []" and "list_all isFinite rs" and "0 \<le> s"
    and "c = getResolutionForScale METERS_PER_UNIT (Fin s)
               (case unitsArg of None \<Rightarrow> ''m'' | Some u \<Rightarrow> u)"
  shows "(\<exists>k. getZoomForScale METERS_PER_UNIT (Fin s) rs unitsArg = Inr (int k)
            \<and> k \<le> nearestIndex c rs
            \<and> js_le (absDiff (rs ! k) (rs ! nearestIndex c rs)) (fl (1 / 10 ^ 10))
            \<and> (\<forall>j<k. \<not> js_le (absDiff (rs ! j) (rs ! nearestIndex c rs)) (fl (1 / 10 ^ 10)))
            \<and> ((\<forall>j<nearestIndex c rs.
                    \<not> js_le (absDiff (rs ! j) (rs ! nearestIndex c rs)) (fl (1 / 10 ^ 10)))
                 \<longrightarrow> k = nearestIndex c rs))
       \<and> nearestIndex c rs < length rs
       \<and> (\<forall>j<length rs. \<not> js_lt (absDiff (rs ! j) c) (absDiff (rs ! nearestIndex c rs) c))
       \<and> (\<forall>j<nearestIndex c rs. js_lt (absDiff (rs ! nearestIndex c rs) c) (absDiff (rs ! j) c))
       \<and> (c = Fin 50 \<longrightarrow>
            getZoomForScale METERS_PER_UNIT (Fin s) [Fin 100, Fin 50, Fin 25, Fin (25 / 2)]
              unitsArg = Inr 1)"
proof -
  let ?eps = "fl (1 / 10 ^ 10)"
  from zoom_scan [OF assms] obtain k
    where k: "getZoomForScale METERS_PER_UNIT (Fin s) rs unitsArg = Inr (int k)"
      "k \<le> nearestIndex c rs"
      "js_le (absDiff (rs ! k) (rs ! nearestIndex c rs)) ?eps"
      "\<forall>j<k. \<not> js_le (absDiff (rs ! j) (rs ! nearestIndex c rs)) ?eps"
    by blast
  have same: "k = nearestIndex c rs"
    if "\<forall>j<nearestIndex c rs. \<not> js_le (absDiff (rs ! j) (rs ! nearestIndex c rs)) ?eps"
  proof (rule ccontr)
    assume "k \<noteq> nearestIndex c rs"
    with k(2) have "k < nearestIndex c rs" by simp
    with that k(3) show False by blast
  qed
  have general: "\<exists>k. getZoomForScale METERS_PER_UNIT (Fin s) rs unitsArg = Inr (int k)
            \<and> k \<le> nearestIndex c rs
            \<and> js_le (absDiff (rs ! k) (rs ! nearestIndex c rs)) ?eps
            \<and> (\<forall>j<k. \<not> js_le (absDiff (rs ! j) (rs ! nearestIndex c rs)) ?eps)
            \<and> ((\<forall>j<nearestIndex c rs.
                    \<not> js_le (absDiff (rs ! j) (rs ! nearestIndex c rs)) ?eps)
                 \<longrightarrow> k = nearestIndex c rs)"
    using k same by blast
  have example: "getZoomForScale METERS_PER_UNIT (Fin s) [Fin 100, Fin 50, Fin 25, Fin (25 / 2)]
                   unitsArg = Inr 1" if r: "c = Fin 50"
  proof -
    let ?ladder = "[Fin 100, Fin 50, Fin 25, Fin (25 / 2)]"
    have ne: "?ladder \<noteq> []" by simp
    have fin: "list_all isFinite ?ladder" by simp
    from zoom_scan [OF ne fin assms(3,4)] obtain i
      where i: "getZoomForScale METERS_PER_UNIT (Fin s) ?ladder unitsArg = Inr (int i)"
        "i \<le> nearestIndex c ?ladder"
        "js_le (absDiff (?ladder ! i) (?ladder ! nearestIndex c ?ladder)) ?eps"
      by blast
    from i(2) have "i = 0 \<or> i = 1" by (auto simp: r nearestIndex_example)
    moreover have "\<not> js_le (absDiff (Fin 100) (Fin 50)) ?eps"
      by (simp add: absDiff_def fl_numeral fl_literals)
    ultimately have "i = 1" using i(3) by (auto simp: r nearestIndex_example)
    with i(1) show ?thesis by simp
  qed
  from general example nearestIndex_props [OF assms(1,2), of c] show ?thesis by blast
qed

text \<open>
  The scale \<open>178571.07142857136\<close> in meters has the calculated resolution 50.
\<close>

theorem getZoomForScale_nearest_witness:
  "[Fin 100, Fin 50, Fin 25, Fin (25 / 2)] \<noteq> []
   \<and> list_all isFinite [Fin 100, Fin 50, Fin 25, Fin (25 / 2)]
   \<and> (0::real) \<le> 383478455898697 / 2 ^ 31
   \<and> getResolutionForScale metersOnly (Fin (383478455898697 / 2 ^ 31)) ''m'' = Fin 50
   \<and> nearestIndex (Fin 50) [Fin 100, Fin 50, Fin 25, Fin (25 / 2)] = 1
   \<and> getZoomForScale metersOnly (Fin (383478455898697 / 2 ^ 31))
        [Fin 100, Fin 50, Fin 25, Fin (25 / 2)] None = Inr 1"
proof -
  have a: "[Fin 100, Fin 50, Fin 25, Fin (25 / 2)] \<noteq> []" by simp
  have b: "list_all isFinite [Fin 100, Fin 50, Fin 25, Fin (25 / 2)]" by simp
  have c: "(0::real) \<le> 383478455898697 / 2 ^ 31" by simp
  have d: "Fin 50 = getResolutionForScale metersOnly (Fin (383478455898697 / 2 ^ 31))
             (case None of None \<Rightarrow> ''m'' | Some u \<Rightarrow> u)"
    using resolution_50 by simp
  from getZoomForScale_nearest [OF a b c d] a b c resolution_50 nearestIndex_example
  show ?thesis by blast
qed

text \<open>
  The ladder \<open>[3 / 2 ^ 34, 1 / 2 ^ 33]\<close> (about \<open>1.75e-10\<close> and \<open>1.16e-10\<close>) and
  the scale 0, whose resolution is 0: the entry of minimum absolute difference is the
  second (index 1), the first is within \<open>1e-10\<close> of it, and the result is 0. And
  for the ladder \<open>[Infinity]\<close> the result is no index at all.
\<close>

theorem getZoomForScale_near_entries_counterexample:
  "getResolutionForScale metersOnly (Fin 0) ''m'' = Fin 0
   \<and> nearestIndex (Fin 0) [Fin (3 / 2 ^ 34), Fin (1 / 2 ^ 33)] = 1
   \<and> getZoomForScale metersOnly (Fin 0) [Fin (3 / 2 ^ 34), Fin (1 / 2 ^ 33)] None = Inr 0
   \<and> getZoomForScale metersOnly (Fin 0) [PInf] None = Inr (- 1)"
proof -
  have v3: "fl (3 / 2 ^ 34) = Fin (3 / 2 ^ 34)" using fl_exact [of 3 "- 34"] by simp
  have v2: "fl (1 / 2 ^ 33) = Fin (1 / 2 ^ 33)" using fl_exact [of 1 "- 33"] by simp
  have v1: "fl (1 / 2 ^ 34) = Fin (1 / 2 ^ 34)" using fl_exact [of 1 "- 34"] by simp
  have "nearestIndex (Fin 0) [Fin (3 / 2 ^ 34), Fin (1 / 2 ^ 33)] = 1"
    using v3 v2 by (intro nearestIndex_unique) (simp_all add: less_Suc_eq absDiff_def)
  moreover have "getZoomForScale metersOnly (Fin 0) [Fin (3 / 2 ^ 34), Fin (1 / 2 ^ 33)] None
                   = Inr 0"
    using v3 v2 v1
    by (simp add: getZoomForScale_def Number_isNaN_def Number_def Let_def resolution_of_zero
          closer_def findIndex_def fl_literals)
  moreover have "getZoomForScale metersOnly (Fin 0) [PInf] None = Inr (- 1)"
    by (simp add: getZoomForScale_def Number_isNaN_def Number_def findIndex_def)
  ultimately show ?thesis using resolution_of_zero by simp
qed

section \<open>Properties of scale rounding\<close>

subsection \<open>Doubles on a grid\<close>

lemma two_powi_less_imp: "(2::real) powi i < 2 powi j \<Longrightarrow> i < j"
proof (rule ccontr)
  assume a: "(2::real) powi i < 2 powi j" and "\<not> i < j"
  then have "j \<le> i" by simp
  then have "(2::real) powi j \<le> 2 powi i" by (intro power_int_increasing) simp_all
  with a show False by simp
qed

lemma two_powi_le_imp: "(2::real) powi i \<le> 2 powi j \<Longrightarrow> i \<le> j"
proof (rule ccontr)
  assume a: "(2::real) powi i \<le> 2 powi j" and "\<not> i \<le> j"
  then have "j < i" by simp
  then have "(2::real) powi j < 2 powi i" by (intro power_int_strict_increasing) simp_all
  with a show False by simp
qed

lemma double_form:
  assumes "isDouble s" and "s \<noteq> 0"
  shows "\<exists>n. s = of_int n * 2 powi (max \<lfloor>log 2 \<bar>s\<bar>\<rfloor> (- 1022) - 52)"
proof -
  let ?u = "(2::real) powi (max \<lfloor>log 2 \<bar>s\<bar>\<rfloor> (- 1022) - 52)"
  from assms have "of_int (rne (s / ?u)) * ?u = s"
    unfolding isDouble_def fl_def Let_def by (auto split: if_splits)
  then show ?thesis by (intro exI [of _ "rne (s / ?u)"]) simp
qed

lemma multiples_apart:
  fixes V :: real
  assumes "0 < V" and "of_int P * V < of_int Q * V"
  shows "of_int P * V + V \<le> of_int Q * V"
proof -
  from assms have "(of_int P :: real) < of_int Q" by (simp add: mult_less_cancel_right)
  then have "P + 1 \<le> Q" by simp
  then have "(of_int (P + 1) :: real) \<le> of_int Q" by (simp only: of_int_le_iff)
  then have "of_int (P + 1) * V \<le> of_int Q * V" using assms(1) by (simp add: mult_right_mono)
  then show ?thesis by (simp add: distrib_right)
qed

subsection \<open>Dividing by a step, rounding and multiplying back\<close>

lemma quotient_rounding:
  fixes c :: int and a :: nat
  assumes lo: "of_int c \<le> s" and hi: "s \<le> 2 ^ 52"
    and ca: "2 ^ a \<le> c" "c < 2 ^ (a + 1)"
  shows "\<exists>t b. fl (s / of_int c) = Fin t \<and> 0 \<le> b \<and> b + int a \<le> 52
             \<and> 2 powi (b + int a) \<le> s
             \<and> of_int c * \<bar>t - s / of_int c\<bar> < 2 powi (b + int a - 52)
             \<and> \<bar>t - s / of_int c\<bar> \<le> 1 / 2"
proof -
  have "(0::int) < 2 ^ a" by simp
  with ca(1) have cpos: "0 < c" by linarith
  then have rcpos: "(0::real) < of_int c" by simp
  have c1: "(1::real) \<le> of_int c" using cpos by simp
  define x where "x = s / of_int c"
  have sx: "s = of_int c * x" using rcpos by (simp add: x_def)
  have x1: "1 \<le> x" using lo rcpos by (simp add: x_def pos_le_divide_eq)
  define b where "b = \<lfloor>log 2 \<bar>x\<bar>\<rfloor>"
  have x0: "x \<noteq> 0" using x1 by simp
  from binade_bounds [OF x0] have blo: "2 powi b \<le> x" and bhi: "x < 2 powi (b + 1)"
    using x1 by (simp_all add: b_def)
  have "(2::real) powi (- 1) < 2 powi b"
  proof -
    have "(2::real) powi 0 < 2 powi (b + 1)" using x1 bhi by simp
    then have "0 < b + 1" by (rule two_powi_less_imp)
    then show ?thesis by (intro power_int_strict_increasing) simp_all
  qed
  then have "- 1 < b" by (rule two_powi_less_imp)
  then have b0: "0 \<le> b" by simp
  have ra: "(2::real) ^ a \<le> of_int c"
  proof -
    have "(of_int (2 ^ a) :: real) \<le> of_int c" using ca(1) by (simp only: of_int_le_iff)
    then show ?thesis by simp
  qed
  have bas: "2 powi (b + int a) \<le> s"
  proof -
    have "2 powi (b + int a) = (2::real) ^ a * 2 powi b"
      using power_int_add [of "2::real" "int a" b] by (simp add: add.commute)
    also have "\<dots> \<le> of_int c * x"
      using ra blo rcpos by (intro mult_mono) simp_all
    finally show ?thesis by (simp add: sx)
  qed
  have ba52: "b + int a \<le> 52"
  proof -
    have "(2::real) powi (b + int a) \<le> 2 powi 52" using bas hi by simp
    then show ?thesis by (rule two_powi_le_imp)
  qed
  then have b1022: "b \<le> 1022" by simp
  have b1022': "- 1022 \<le> b" using b0 by simp
  have absx: "\<bar>x\<bar> = x" using x1 by simp
  from fl_normal [OF x0 b1022' b1022] blo bhi absx
  obtain n where t: "fl x = Fin (of_int n * 2 powi (b - 52))"
    and err: "\<bar>of_int n * 2 powi (b - 52) - x\<bar> \<le> 2 powi (b - 53)"
    by auto
  define t where "t = of_int n * (2::real) powi (b - 52)"
  have flx: "fl x = Fin t" and terr: "\<bar>t - x\<bar> \<le> 2 powi (b - 53)"
    using t err by (simp_all add: t_def)
  define V where "V = (2::real) powi (b + int a - 52)"
  have Vsplit: "V = 2 ^ (a + 1) * 2 powi (b - 53)"
  proof -
    have "b + int a - 52 = int (a + 1) + (b - 53)" by simp
    then have "V = 2 powi (int (a + 1) + (b - 53))" by (simp only: V_def)
    also have "\<dots> = 2 powi int (a + 1) * 2 powi (b - 53)"
      by (rule power_int_add) simp
    finally show ?thesis by (simp only: power_int_of_nat)
  qed
  have cV: "of_int c * 2 powi (b - 53) < V"
  proof -
    have "(of_int c :: real) < of_int (2 ^ (a + 1))" using ca(2) by (simp only: of_int_less_iff)
    then have "(of_int c :: real) < 2 ^ (a + 1)" by simp
    moreover have "(0::real) < 2 powi (b - 53)" by simp
    ultimately have "of_int c * (2::real) powi (b - 53) < 2 ^ (a + 1) * 2 powi (b - 53)"
      by (rule mult_strict_right_mono)
    then show ?thesis by (simp only: Vsplit)
  qed
  have errV: "of_int c * \<bar>t - x\<bar> < V"
  proof -
    have "of_int c * \<bar>t - x\<bar> \<le> of_int c * 2 powi (b - 53)"
      using terr rcpos by (simp add: mult_left_mono)
    with cV show ?thesis by linarith
  qed
  have half: "\<bar>t - x\<bar> \<le> 1 / 2"
  proof -
    have "(2::real) powi (b - 53) \<le> 2 powi (- 1)"
      using ba52 by (intro power_int_increasing) simp_all
    with terr show ?thesis by simp
  qed
  from flx b0 ba52 bas errV half show ?thesis
    unfolding x_def V_def by blast
qed

lemma round_to_step:
  fixes c :: int and a :: nat
  assumes dbl: "isDouble s" and lo: "of_int c \<le> s" and hi: "s \<le> 2 ^ 52"
    and ca: "2 ^ a \<le> c" "c < 2 ^ (a + 1)" and ev: "even c"
  shows "\<exists>k::int. js_mul (js_round (js_div (Fin s) (Fin (of_int c)))) (Fin (of_int c))
                    = Fin (of_int (k * c))
               \<and> \<bar>of_int (k * c) - s\<bar> \<le> of_int c / 2"
proof -
  have "(0::int) < 2 ^ a" by simp
  with ca(1) have cpos: "0 < c" by linarith
  then have rcpos: "(0::real) < of_int c" by simp
  have spos: "0 < s" using lo rcpos by linarith
  from quotient_rounding [OF lo hi ca] obtain t b
    where flx: "fl (s / of_int c) = Fin t" and b0: "0 \<le> b" and ba52: "b + int a \<le> 52"
      and bas: "2 powi (b + int a) \<le> s"
      and errV: "of_int c * \<bar>t - s / of_int c\<bar> < 2 powi (b + int a - 52)"
    by blast
  define V where "V = (2::real) powi (b + int a - 52)"
  have Vpos: "0 < V" by (simp add: V_def)
  define k where "k = \<lfloor>t + 1 / 2\<rfloor>"
  have klo: "of_int k \<le> t + 1 / 2" and khi: "t + 1 / 2 < of_int k + 1"
    unfolding k_def by linarith+
  from ev obtain h where h: "c = 2 * h" by (elim evenE)
  have rh: "(of_int c :: real) = 2 * of_int h" by (simp add: h)
  \<comment> \<open>the scale is a multiple of the unit\<close>
  have "\<exists>N. s = of_int N * V"
  proof -
    define bs where "bs = \<lfloor>log 2 \<bar>s\<bar>\<rfloor>"
    have s0: "s \<noteq> 0" using spos by simp
    from binade_bounds [OF s0] have "s < 2 powi (bs + 1)" using spos by (simp add: bs_def)
    with bas have "(2::real) powi (b + int a) < 2 powi (bs + 1)" by linarith
    then have "b + int a < bs + 1" by (rule two_powi_less_imp)
    then have ge: "b + int a \<le> bs" by simp
    with b0 have "max bs (- 1022) = bs" by simp
    with double_form [OF dbl s0] obtain n where n: "s = of_int n * 2 powi (bs - 52)"
      by (auto simp: bs_def)
    from ge obtain j :: nat where j: "bs - (b + int a) = int j"
      using zero_le_imp_eq_int [of "bs - (b + int a)"] by auto
    have "bs - 52 = int j + (b + int a - 52)" using j by simp
    then have "(2::real) powi (bs - 52) = 2 powi (int j + (b + int a - 52))"
      by (rule arg_cong [where f = "\<lambda>z. 2 powi z"])
    also have "\<dots> = 2 powi int j * 2 powi (b + int a - 52)"
      by (rule power_int_add) simp
    finally have "(2::real) powi (bs - 52) = 2 ^ j * V" by (simp only: power_int_of_nat V_def)
    with n have "s = of_int (n * 2 ^ j) * V" by simp
    then show ?thesis by blast
  qed
  then obtain N where N: "s = of_int N * V" by blast
  \<comment> \<open>every integer is a multiple of the unit\<close>
  from ba52 obtain i :: nat where i: "52 - (b + int a) = int i"
    using zero_le_imp_eq_int [of "52 - (b + int a)"] by auto
  have unit: "(2::real) ^ i * V = 1"
  proof -
    have "(2::real) powi (int i + (b + int a - 52)) = 2 powi int i * 2 powi (b + int a - 52)"
      by (rule power_int_add) simp
    moreover have "int i + (b + int a - 52) = 0" using i by simp
    ultimately show ?thesis by (simp add: V_def)
  qed
  have whole: "(of_int M :: real) = of_int (M * 2 ^ i) * V" for M :: int
  proof -
    have "of_int (M * 2 ^ i) * V = of_int M * (2 ^ i * V)" by simp
    then show ?thesis by (simp only: unit mult_1_right)
  qed
  define P where "P = of_int c * (t - s / of_int c)"
  define Q where "Q = of_int c * \<bar>t - s / of_int c\<bar>"
  have QV: "Q < V" using errV by (simp only: Q_def V_def)
  have sx: "of_int c * (s / of_int c) = s" using rcpos by simp
  have ct: "P = of_int c * t - s"
    using sx by (simp add: P_def right_diff_distrib)
  have absle: "P \<le> Q"
    unfolding P_def Q_def using rcpos by (intro mult_left_mono) simp_all
  have absge: "- P \<le> Q"
  proof -
    have "of_int c * (- (t - s / of_int c)) \<le> of_int c * \<bar>t - s / of_int c\<bar>"
      using rcpos by (intro mult_left_mono) simp_all
    then show ?thesis by (simp only: mult_minus_right P_def Q_def)
  qed
  have ckl: "of_int (k * c) - of_int h \<le> of_int c * t"
  proof -
    have "of_int c * of_int k \<le> of_int c * (t + 1 / 2)"
      using klo rcpos by (intro mult_left_mono) simp_all
    then show ?thesis by (simp add: rh algebra_simps)
  qed
  have cku: "of_int c * t < of_int (k * c) + of_int h"
  proof -
    have "t < of_int k + 1 / 2" using khi by linarith
    then have "of_int c * t < of_int c * (of_int k + 1 / 2)"
      using rcpos by (intro mult_strict_left_mono) simp_all
    then show ?thesis by (simp add: rh algebra_simps)
  qed
  have lower: "of_int (k * c - h) \<le> s"
  proof (rule ccontr)
    assume "\<not> of_int (k * c - h) \<le> s"
    then have less: "s < of_int (k * c - h)" by (simp only: not_le)
    note w = whole [of "k * c - h"]
    from less N w have "of_int N * V < of_int ((k * c - h) * 2 ^ i) * V" by linarith
    from multiples_apart [OF Vpos this] N w have "s + V \<le> of_int (k * c - h)" by linarith
    moreover have "(of_int (k * c - h) :: real) = of_int (k * c) - of_int h" by simp
    ultimately have "V \<le> of_int c * t - s" using ckl by linarith
    with ct absle QV show False by linarith
  qed
  have upper: "s \<le> of_int (k * c + h)"
  proof (rule ccontr)
    assume "\<not> s \<le> of_int (k * c + h)"
    then have less: "of_int (k * c + h) < s" by (simp only: not_le)
    note w = whole [of "k * c + h"]
    from less N w have "of_int ((k * c + h) * 2 ^ i) * V < of_int N * V" by linarith
    from multiples_apart [OF Vpos this] N w have "of_int (k * c + h) + V \<le> s" by linarith
    moreover have "(of_int (k * c + h) :: real) = of_int (k * c) + of_int h" by simp
    ultimately have "V < s - of_int c * t" using cku by linarith
    with ct absge QV show False by linarith
  qed
  have near: "\<bar>of_int (k * c) - s\<bar> \<le> of_int c / 2"
  proof -
    have "(of_int (k * c - h) :: real) = of_int (k * c) - of_int h"
      "(of_int (k * c + h) :: real) = of_int (k * c) + of_int h" by simp_all
    with lower upper rh show ?thesis by linarith
  qed
  \<comment> \<open>the product is exact\<close>
  have "of_int (k * c) \<le> s + of_int c / 2" "s - of_int c / 2 \<le> of_int (k * c)"
    using near by linarith+
  with lo hi rcpos have "(of_int (k * c) :: real) < 2 ^ 53" "(0::real) \<le> of_int (k * c)"
    by simp_all
  then have "(of_int (k * c) :: real) < of_int (2 ^ 53)" "(of_int 0 :: real) \<le> of_int (k * c)"
    by simp_all
  then have "k * c < 2 ^ 53" "0 \<le> k * c" by (simp_all only: of_int_less_iff of_int_le_iff)
  then have "\<bar>k * c\<bar> < 2 ^ 53" by simp
  from fl_int [OF this] have prod: "fl (of_int k * of_int c) = Fin (of_int (k * c))" by simp
  have "js_mul (js_round (js_div (Fin s) (Fin (of_int c)))) (Fin (of_int c))
          = Fin (of_int (k * c))"
    using rcpos flx prod by (simp add: k_def)
  with near show ?thesis by blast
qed

subsection \<open>The four tiers of roundScale\<close>

lemma isDouble_int: "\<bar>n\<bar> < 2 ^ 53 \<Longrightarrow> isDouble (of_int n)"
  by (simp add: isDouble_def fl_int)

lemma isDouble_numeral: "numeral w < (2::int) ^ 53 \<Longrightarrow> isDouble (numeral w)"
  using isDouble_int [of "numeral w"] by simp

lemma roundScale_tier1: "s < 100 \<Longrightarrow> roundScale (Fin s) = Some (Fin (of_int \<lfloor>s + 1 / 2\<rfloor>))"
  by (simp add: roundScale_def js_ge_def)

lemma roundScale_tier2:
  "100 \<le> s \<Longrightarrow> s < 10000 \<Longrightarrow>
     roundScale (Fin s) = Some (js_mul (js_round (js_div (Fin s) (Fin 10))) (Fin 10))"
  by (simp add: roundScale_def js_ge_def)

lemma roundScale_tier3:
  "10000 \<le> s \<Longrightarrow> s < 1000000 \<Longrightarrow>
     roundScale (Fin s) = Some (js_mul (js_round (js_div (Fin s) (Fin 100))) (Fin 100))"
  by (simp add: roundScale_def js_ge_def)

lemma roundScale_tier4:
  "1000000 \<le> s \<Longrightarrow>
     roundScale (Fin s) = Some (js_mul (js_round (js_div (Fin s) (Fin 1000))) (Fin 1000))"
  by (simp add: roundScale_def js_ge_def)

lemma round_near: "\<bar>of_int \<lfloor>x + 1 / 2\<rfloor> - (x::real)\<bar> \<le> 1 / 2"
  by linarith

lemma tier_10:
  assumes "isDouble s" and "100 \<le> s" and "s < 10000"
  shows "\<exists>k::int. roundScale (Fin s) = Some (Fin (of_int k * 10)) \<and> \<bar>of_int k * 10 - s\<bar> \<le> 5"
proof -
  have "of_int 10 \<le> s" "s \<le> 2 ^ 52" using assms by simp_all
  from round_to_step [OF assms(1) this, of 3] obtain k :: int
    where "js_mul (js_round (js_div (Fin s) (Fin (of_int 10)))) (Fin (of_int 10))
             = Fin (of_int (k * 10))"
      and "\<bar>of_int (k * 10) - s\<bar> \<le> of_int 10 / 2"
    by auto
  with assms show ?thesis by (intro exI [of _ k]) (simp add: roundScale_tier2)
qed

lemma tier_100:
  assumes "isDouble s" and "10000 \<le> s" and "s < 1000000"
  shows "\<exists>k::int. roundScale (Fin s) = Some (Fin (of_int k * 100)) \<and> \<bar>of_int k * 100 - s\<bar> \<le> 50"
proof -
  have "of_int 100 \<le> s" "s \<le> 2 ^ 52" using assms by simp_all
  from round_to_step [OF assms(1) this, of 6] obtain k :: int
    where "js_mul (js_round (js_div (Fin s) (Fin (of_int 100)))) (Fin (of_int 100))
             = Fin (of_int (k * 100))"
      and "\<bar>of_int (k * 100) - s\<bar> \<le> of_int 100 / 2"
    by auto
  with assms show ?thesis by (intro exI [of _ k]) (simp add: roundScale_tier3)
qed

lemma tier_1000:
  assumes "isDouble s" and "1000000 \<le> s" and "s \<le> 2 ^ 52"
  shows "\<exists>k::int. roundScale (Fin s) = Some (Fin (of_int k * 1000))
                  \<and> \<bar>of_int k * 1000 - s\<bar> \<le> 500"
proof -
  have "of_int 1000 \<le> s" using assms by simp
  from round_to_step [OF assms(1) this assms(3), of 9] obtain k :: int
    where "js_mul (js_round (js_div (Fin s) (Fin (of_int 1000)))) (Fin (of_int 1000))
             = Fin (of_int (k * 1000))"
      and "\<bar>of_int (k * 1000) - s\<bar> \<le> of_int 1000 / 2"
    by auto
  with assms show ?thesis by (intro exI [of _ k]) (simp add: roundScale_tier4)
qed

text \<open>An integer multiple of a step within a bound of a number, as a fact on integers.\<close>

lemma multiple_near:
  fixes k c v h :: int
  assumes "\<bar>of_int k * of_int c - (of_int v :: real)\<bar> \<le> of_int h"
  shows "\<bar>k * c - v\<bar> \<le> h"
proof -
  have "\<bar>(of_int (k * c - v) :: real)\<bar> \<le> of_int h" using assms by simp
  then have "(of_int \<bar>k * c - v\<bar> :: real) \<le> of_int h" by (simp only: of_int_abs)
  then show ?thesis by (simp only: of_int_le_iff)
qed

lemma multiple_unique:
  fixes k m c v h :: int
  assumes "\<bar>k * c - v\<bar> \<le> h" and "\<bar>m * c - v\<bar> + h < c"
  shows "k = m"
proof (rule ccontr)
  assume "k \<noteq> m"
  then have one: "1 \<le> \<bar>k - m\<bar>" by linarith
  have c: "0 \<le> c" using assms by linarith
  have "1 * c \<le> \<bar>k - m\<bar> * c" using one c by (rule mult_right_mono)
  moreover have "\<bar>k - m\<bar> * c = \<bar>k * c - m * c\<bar>"
    using c by (simp add: abs_mult left_diff_distrib [symmetric])
  moreover have "\<bar>k * c - m * c\<bar> < c" using assms by linarith
  ultimately show False by linarith
qed

lemma ex_99: "roundScale (Fin 99) = Some (Fin 99)"
  by (simp add: roundScale_tier1)

lemma ex_100: "roundScale (Fin 100) = Some (Fin 100)"
proof -
  from tier_10 [of 100] obtain k :: int
    where k: "roundScale (Fin 100) = Some (Fin (of_int k * 10))"
      "\<bar>of_int k * 10 - (100::real)\<bar> \<le> 5"
    by (auto simp: isDouble_numeral)
  from multiple_near [of k 10 100 5] k(2) have "\<bar>k * 10 - 100\<bar> \<le> 5" by simp
  then have "k = 10" using multiple_unique [of k _ _ _ 10] by simp
  with k(1) show ?thesis by simp
qed

lemma ex_9999: "roundScale (Fin 9999) = Some (Fin 10000)"
proof -
  from tier_10 [of 9999] obtain k :: int
    where k: "roundScale (Fin 9999) = Some (Fin (of_int k * 10))"
      "\<bar>of_int k * 10 - (9999::real)\<bar> \<le> 5"
    by (auto simp: isDouble_numeral)
  from multiple_near [of k 10 9999 5] k(2) have "\<bar>k * 10 - 9999\<bar> \<le> 5" by simp
  then have "k = 1000" using multiple_unique [of k _ _ _ 1000] by simp
  with k(1) show ?thesis by simp
qed

lemma ex_10000: "roundScale (Fin 10000) = Some (Fin 10000)"
proof -
  from tier_100 [of 10000] obtain k :: int
    where k: "roundScale (Fin 10000) = Some (Fin (of_int k * 100))"
      "\<bar>of_int k * 100 - (10000::real)\<bar> \<le> 50"
    by (auto simp: isDouble_numeral)
  from multiple_near [of k 100 10000 50] k(2) have "\<bar>k * 100 - 10000\<bar> \<le> 50" by simp
  then have "k = 100" using multiple_unique [of k _ _ _ 100] by simp
  with k(1) show ?thesis by simp
qed

lemma ex_999999: "roundScale (Fin 999999) = Some (Fin 1000000)"
proof -
  from tier_100 [of 999999] obtain k :: int
    where k: "roundScale (Fin 999999) = Some (Fin (of_int k * 100))"
      "\<bar>of_int k * 100 - (999999::real)\<bar> \<le> 50"
    by (auto simp: isDouble_numeral)
  from multiple_near [of k 100 999999 50] k(2) have "\<bar>k * 100 - 999999\<bar> \<le> 50" by simp
  then have "k = 10000" using multiple_unique [of k _ _ _ 10000] by simp
  with k(1) show ?thesis by simp
qed

lemma ex_1000000: "roundScale (Fin 1000000) = Some (Fin 1000000)"
proof -
  from tier_1000 [of 1000000] obtain k :: int
    where k: "roundScale (Fin 1000000) = Some (Fin (of_int k * 1000))"
      "\<bar>of_int k * 1000 - (1000000::real)\<bar> \<le> 500"
    by (auto simp: isDouble_numeral)
  from multiple_near [of k 1000 1000000 500] k(2) have "\<bar>k * 1000 - 1000000\<bar> \<le> 500" by simp
  then have "k = 1000" using multiple_unique [of k _ _ _ 1000] by simp
  with k(1) show ?thesis by simp
qed

lemma ex_12344: "roundScale (Fin 12344) = Some (Fin 12300)"
proof -
  from tier_100 [of 12344] obtain k :: int
    where k: "roundScale (Fin 12344) = Some (Fin (of_int k * 100))"
      "\<bar>of_int k * 100 - (12344::real)\<bar> \<le> 50"
    by (auto simp: isDouble_numeral)
  from multiple_near [of k 100 12344 50] k(2) have "\<bar>k * 100 - 12344\<bar> \<le> 50" by simp
  then have "k = 123" using multiple_unique [of k _ _ _ 123] by simp
  with k(1) show ?thesis by simp
qed


text \<open>
  C7: roundScale over double arithmetic. For every scale that is a non-negative double up to
  \<open>2 ^ 52\<close> the result is a whole number within 1/2 of the scale below 100, a multiple of
  10 within 5 of it from 100 below 10000, a multiple of 100 within 50 of it from 10000 below
  1000000, and a multiple of 1000 within 500 of it from 1000000 on; the tier boundaries are
  99 to 99, 100 to 100, 9999 to 10000, 10000 to 10000, 999999 to 1000000 and 1000000 to
  1000000. The quotient and the product are each rounded to a double, and the product is
  exact in this range.
\<close>

theorem roundScale_tiers:
  assumes "isDouble s" and "0 \<le> s" and "s \<le> 2 ^ 52"
  shows "(s < 100 \<longrightarrow>
            (\<exists>k::int. roundScale (Fin s) = Some (Fin (of_int k)) \<and> \<bar>of_int k - s\<bar> \<le> 1 / 2))
       \<and> (100 \<le> s \<and> s < 10000 \<longrightarrow>
            (\<exists>k::int. roundScale (Fin s) = Some (Fin (of_int k * 10)) \<and> \<bar>of_int k * 10 - s\<bar> \<le> 5))
       \<and> (10000 \<le> s \<and> s < 1000000 \<longrightarrow>
            (\<exists>k::int. roundScale (Fin s) = Some (Fin (of_int k * 100))
                      \<and> \<bar>of_int k * 100 - s\<bar> \<le> 50))
       \<and> (1000000 \<le> s \<longrightarrow>
            (\<exists>k::int. roundScale (Fin s) = Some (Fin (of_int k * 1000))
                      \<and> \<bar>of_int k * 1000 - s\<bar> \<le> 500))
       \<and> roundScale (Fin 99) = Some (Fin 99)
       \<and> roundScale (Fin 100) = Some (Fin 100)
       \<and> roundScale (Fin 9999) = Some (Fin 10000)
       \<and> roundScale (Fin 10000) = Some (Fin 10000)
       \<and> roundScale (Fin 999999) = Some (Fin 1000000)
       \<and> roundScale (Fin 1000000) = Some (Fin 1000000)"
proof -
  have t1: "s < 100 \<longrightarrow>
      (\<exists>k::int. roundScale (Fin s) = Some (Fin (of_int k)) \<and> \<bar>of_int k - s\<bar> \<le> 1 / 2)"
    using roundScale_tier1 [of s] round_near [of s] by blast
  have t2: "100 \<le> s \<and> s < 10000 \<longrightarrow>
      (\<exists>k::int. roundScale (Fin s) = Some (Fin (of_int k * 10)) \<and> \<bar>of_int k * 10 - s\<bar> \<le> 5)"
    using tier_10 [OF assms(1)] by blast
  have t3: "10000 \<le> s \<and> s < 1000000 \<longrightarrow>
      (\<exists>k::int. roundScale (Fin s) = Some (Fin (of_int k * 100)) \<and> \<bar>of_int k * 100 - s\<bar> \<le> 50)"
    using tier_100 [OF assms(1)] by blast
  have t4: "1000000 \<le> s \<longrightarrow>
      (\<exists>k::int. roundScale (Fin s) = Some (Fin (of_int k * 1000)) \<and> \<bar>of_int k * 1000 - s\<bar> \<le> 500)"
    using tier_1000 [OF assms(1) _ assms(3)] by blast
  from t1 t2 t3 t4 ex_99 ex_100 ex_9999 ex_10000 ex_999999 ex_1000000 show ?thesis by blast
qed

theorem roundScale_tiers_witness:
  "isDouble 12344 \<and> (0::real) \<le> 12344 \<and> (12344::real) \<le> 2 ^ 52
   \<and> (10000::real) \<le> 12344 \<and> (12344::real) < 1000000
   \<and> roundScale (Fin 12344) = Some (Fin 12300)
   \<and> roundScale (Fin 9999) = Some (Fin 10000)"
proof -
  have d: "isDouble 12344" by (simp add: isDouble_numeral)
  have pos: "(0::real) \<le> 12344" by simp
  have le: "(12344::real) \<le> 2 ^ 52" by simp
  from roundScale_tiers [OF d pos le] d ex_12344 show ?thesis by simp
qed

text \<open>
  Beyond \<open>2 ^ 53\<close> doubles are further apart than the step: \<open>2 ^ 63\<close> is
  divided by 1000, the quotient rounds to 9223372036854776, and the product rounds back to
  \<open>2 ^ 63\<close>, which is not a multiple of 1000.
\<close>

lemma val_q63: "fl (2 ^ 63 / 1000) = Fin 9223372036854776"
  using fl_eval [of "2 ^ 63 / 1000" 53 4611686018427388] by simp

lemma val_p63: "fl (9223372036854776 * 1000) = Fin (2 ^ 63)"
  using fl_eval [of "9223372036854776 * 1000" 63 "2 ^ 52"] by simp

theorem roundScale_large_counterexample:
  "isDouble (2 ^ 63) \<and> roundScale (Fin (2 ^ 63)) = Some (Fin (2 ^ 63))
   \<and> (2 ^ 63 :: int) mod 1000 = 808"
proof -
  have d: "isDouble (2 ^ 63)"
    using fl_exact [of 1 63] by (simp add: isDouble_def)
  have "js_div (Fin (2 ^ 63)) (Fin 1000) = Fin 9223372036854776"
    using val_q63 by simp
  moreover have "js_round (Fin 9223372036854776) = Fin 9223372036854776" by simp
  moreover have "js_mul (Fin 9223372036854776) (Fin 1000) = Fin (2 ^ 63)"
    using val_p63 by simp
  ultimately have "roundScale (Fin (2 ^ 63)) = Some (Fin (2 ^ 63))"
    using roundScale_tier4 [of "2 ^ 63"] by simp
  with d show ?thesis by simp
qed

section \<open>Properties of the unit/scale math\<close>

subsection \<open>The relative error of a rounded product and quotient\<close>

text \<open>In the normal range a result is rounded with a relative error of at most \<open>2 ^ - 53\<close>.\<close>

lemma fl_rel:
  assumes "2 powi (- 1022) \<le> x" and "x < 2 powi 1023"
  shows "\<exists>y. fl x = Fin y \<and> x * (1 - 1 / 2 ^ 53) \<le> y \<and> y \<le> x * (1 + 1 / 2 ^ 53)"
proof -
  have "(0::real) < 2 powi (- 1022)" by simp
  from this assms(1) have pos: "0 < x" by (rule less_le_trans)
  then have x0: "x \<noteq> 0" and ax: "\<bar>x\<bar> = x" by simp_all
  define e where "e = \<lfloor>log 2 \<bar>x\<bar>\<rfloor>"
  from binade_bounds [OF x0] have lo: "2 powi e \<le> \<bar>x\<bar>" and hi: "\<bar>x\<bar> < 2 powi (e + 1)"
    by (simp_all add: e_def)
  from lo ax have lo': "2 powi e \<le> x" by simp
  from hi ax have hi': "x < 2 powi (e + 1)" by simp
  from assms(1) hi' have "(2::real) powi (- 1022) < 2 powi (e + 1)" by (rule le_less_trans)
  then have e1: "- 1022 \<le> e" using two_powi_less_imp [of "- 1022" "e + 1"] by simp
  from lo' assms(2) have "(2::real) powi e < 2 powi 1023" by (rule le_less_trans)
  then have e2: "e \<le> 1022" using two_powi_less_imp [of e 1023] by simp
  from fl_normal [OF x0 e1 e2 lo hi] obtain n where
    n: "fl x = Fin (of_int n * 2 powi (e - 52))"
       "\<bar>of_int n * 2 powi (e - 52) - x\<bar> \<le> 2 powi (e - 53)" by blast
  define y where "y = of_int n * (2::real) powi (e - 52)"
  define w where "w = (2::real) powi (e - 53)"
  define v where "v = x / 2 ^ 53"
  have "w = 2 powi e / 2 ^ 53"
    unfolding w_def using power_int_diff [of "2::real" e 53] by simp
  also have "\<dots> \<le> v" unfolding v_def using lo' by (rule divide_right_mono) simp
  finally have wv: "w \<le> v" .
  have "\<bar>y - x\<bar> \<le> w" using n(2) by (simp only: y_def w_def)
  with wv have near: "x - v \<le> y \<and> y \<le> x + v" by linarith
  have eqL: "x * (1 - 1 / 2 ^ 53) = x - v" by (simp add: right_diff_distrib v_def)
  have eqU: "x * (1 + 1 / 2 ^ 53) = x + v" by (simp add: distrib_left v_def)
  from near have "x * (1 - 1 / 2 ^ 53) \<le> y \<and> y \<le> x * (1 + 1 / 2 ^ 53)"
    by (simp only: eqL eqU)
  with n(1) show ?thesis unfolding y_def by blast
qed

lemma mul_round:
  fixes L U :: real
  assumes a: "x * L \<le> a" "a \<le> x * U"
    and x: "0 < x" and c: "0 < c"
    and LU: "1 / 2 \<le> L" "U \<le> 2"
    and range: "2 powi (- 1021) \<le> x * c" "x * c \<le> 2 powi 1021"
  shows "\<exists>y. js_mul (Fin a) (Fin c) = Fin y
           \<and> (x * c) * (L * (1 - 1 / 2 ^ 53)) \<le> y \<and> y \<le> (x * c) * (U * (1 + 1 / 2 ^ 53))"
proof -
  define p where "p = x * c"
  have p: "0 < p" using x c by (simp add: p_def)
  have lo: "p * L \<le> a * c"
  proof -
    have "x * L * c \<le> a * c" using a(1) c by (simp only: mult_right_mono less_imp_le)
    then show ?thesis by (simp add: p_def mult_ac)
  qed
  have hi: "a * c \<le> p * U"
  proof -
    have "a * c \<le> x * U * c" using a(2) c by (simp only: mult_right_mono less_imp_le)
    then show ?thesis by (simp add: p_def mult_ac)
  qed
  have "p * (1 / 2) \<le> p * L" using LU(1) p by (simp only: mult_left_mono less_imp_le)
  moreover have "(2::real) powi (- 1021) * (1 / 2) = 2 powi (- 1022)"
    using power_int_diff [of "2::real" "- 1021" 1] by simp
  moreover from range(1) have "2 powi (- 1021) * (1 / 2) \<le> p * (1 / 2)"
    unfolding p_def by (rule mult_right_mono) simp
  ultimately have r1: "2 powi (- 1022) \<le> a * c" using lo by linarith
  have "p * U \<le> p * 2" using LU(2) p by (simp only: mult_left_mono less_imp_le)
  moreover have "(2::real) powi 1021 * 2 = 2 powi 1022"
    using power_int_add [of "2::real" 1021 1] by simp
  moreover from range(2) have "p * 2 \<le> 2 powi 1021 * 2"
    unfolding p_def by (rule mult_right_mono) simp
  moreover have "(2::real) powi 1022 < 2 powi 1023" by simp
  ultimately have r2: "a * c < 2 powi 1023" using hi by linarith
  from fl_rel [OF r1 r2] obtain y where
    y: "fl (a * c) = Fin y" "a * c * (1 - 1 / 2 ^ 53) \<le> y" "y \<le> a * c * (1 + 1 / 2 ^ 53)"
    by blast
  have "p * L * (1 - 1 / 2 ^ 53) \<le> a * c * (1 - 1 / 2 ^ 53)"
    using lo by (intro mult_right_mono) simp_all
  moreover have "a * c * (1 + 1 / 2 ^ 53) \<le> p * U * (1 + 1 / 2 ^ 53)"
    using hi by (intro mult_right_mono) simp_all
  ultimately have "p * (L * (1 - 1 / 2 ^ 53)) \<le> y \<and> y \<le> p * (U * (1 + 1 / 2 ^ 53))"
    using y(2,3) by (simp only: mult.assoc) linarith
  with y(1) show ?thesis unfolding p_def by auto
qed

lemma div_round:
  fixes L U L' U' :: real
  assumes a: "x * L \<le> a" "a \<le> x * U" and b: "z * L' \<le> b" "b \<le> z * U'"
    and x: "0 < x" and z: "0 < z"
    and LU: "1 / 2 \<le> L" "U \<le> 2" "1 / 2 \<le> L'" "U' \<le> 2"
    and range: "2 powi (- 1020) \<le> x / z" "x / z \<le> 2 powi 1020"
  shows "\<exists>y. js_div (Fin a) (Fin b) = Fin y
           \<and> (x / z) * (L / U' * (1 - 1 / 2 ^ 53)) \<le> y
           \<and> y \<le> (x / z) * (U / L' * (1 + 1 / 2 ^ 53))"
proof -
  define p where "p = x / z"
  have p: "0 < p" using x z by (simp add: p_def)
  have L': "0 < L'" using LU(3) by linarith
  have zL: "0 < z * L'" using z L' by simp
  then have bpos: "0 < b" using b(1) by linarith
  then have "0 < z * U'" using b(2) by linarith
  then have U': "0 < U'" using z by (simp add: zero_less_mult_iff)
  have xL: "0 \<le> x * L" using x LU(1) by simp
  have apos: "0 \<le> a" using xL a(1) by linarith
  then have "x * L / (z * U') \<le> a / b" using a(1) bpos b(2) by (rule frac_le)
  moreover have "x * L / (z * U') = p * (L / U')" by (simp add: p_def)
  ultimately have lo: "p * (L / U') \<le> a / b" by simp
  have "0 \<le> x * U" using apos a(2) by linarith
  then have "a / b \<le> x * U / (z * L')" using a(2) zL b(1) by (rule frac_le)
  moreover have "x * U / (z * L') = p * (U / L')" by (simp add: p_def)
  ultimately have hi: "a / b \<le> p * (U / L')" by simp
  have "1 / 4 \<le> L / U'"
  proof -
    have "(1 / 2) / 2 \<le> L / U'" using LU(1) U' LU(4) by (intro frac_le) simp_all
    then show ?thesis by simp
  qed
  then have "p * (1 / 4) \<le> p * (L / U')" using p by (simp only: mult_left_mono less_imp_le)
  moreover have "(2::real) powi (- 1020) * (1 / 4) = 2 powi (- 1022)"
    using power_int_diff [of "2::real" "- 1020" 2] by simp
  moreover from range(1) have "2 powi (- 1020) * (1 / 4) \<le> p * (1 / 4)"
    unfolding p_def by (rule mult_right_mono) simp
  ultimately have r1: "2 powi (- 1022) \<le> a / b" using lo by linarith
  have "U / L' \<le> 4"
  proof -
    have "0 \<le> x * U" using xL a by linarith
    then have "0 \<le> U" using x by (simp add: zero_le_mult_iff)
    then have "U / L' \<le> 2 / (1 / 2)" using LU(2,3) by (intro frac_le) simp_all
    then show ?thesis by simp
  qed
  then have "p * (U / L') \<le> p * 4" using p by (simp only: mult_left_mono less_imp_le)
  moreover have "(2::real) powi 1020 * 4 = 2 powi 1022"
    using power_int_add [of "2::real" 1020 2] by simp
  moreover from range(2) have "p * 4 \<le> 2 powi 1020 * 4"
    unfolding p_def by (rule mult_right_mono) simp
  moreover have "(2::real) powi 1022 < 2 powi 1023" by simp
  ultimately have r2: "a / b < 2 powi 1023" using hi by linarith
  from fl_rel [OF r1 r2] obtain y where
    y: "fl (a / b) = Fin y" "a / b * (1 - 1 / 2 ^ 53) \<le> y" "y \<le> a / b * (1 + 1 / 2 ^ 53)"
    by blast
  have "p * (L / U') * (1 - 1 / 2 ^ 53) \<le> a / b * (1 - 1 / 2 ^ 53)"
    using lo by (intro mult_right_mono) simp_all
  moreover have "a / b * (1 + 1 / 2 ^ 53) \<le> p * (U / L') * (1 + 1 / 2 ^ 53)"
    using hi by (intro mult_right_mono) simp_all
  ultimately have "p * (L / U' * (1 - 1 / 2 ^ 53)) \<le> y \<and> y \<le> p * (U / L' * (1 + 1 / 2 ^ 53))"
    using y(2,3) by (simp only: mult.assoc) linarith
  moreover have "b \<noteq> 0" using bpos by simp
  ultimately show ?thesis using y(1) unfolding p_def by auto
qed

lemma range_step:
  fixes x c :: real
  assumes "2 powi p \<le> x" and "x \<le> 2 powi q" and "2 powi p' \<le> c" and "c \<le> 2 powi q'"
    and "P \<le> p + p'" and "q + q' \<le> Q"
  shows "2 powi P \<le> x * c \<and> x * c \<le> 2 powi Q"
proof
  have x: "0 \<le> x" using assms(1) by (rule order_trans [rotated]) simp
  have c: "0 \<le> c" using assms(3) by (rule order_trans [rotated]) simp
  have "(2::real) powi P \<le> 2 powi (p + p')"
    using assms(5) by (intro power_int_increasing) simp_all
  also have "\<dots> = 2 powi p * 2 powi p'" by (simp add: power_int_add)
  also have "\<dots> \<le> x * c" using assms(1,3) x by (intro mult_mono) simp_all
  finally show "2 powi P \<le> x * c" .
  have "x * c \<le> 2 powi q * 2 powi q'" using assms(2,4) c by (intro mult_mono) simp_all
  also have "\<dots> = 2 powi (q + q')" by (simp add: power_int_add)
  also have "\<dots> \<le> 2 powi Q" using assms(6) by (intro power_int_increasing) simp_all
  finally show "x * c \<le> 2 powi Q" .
qed

lemma within_relative:
  fixes x y :: real
  assumes "x * lo \<le> y" and "y \<le> x * hi" and "0 \<le> x"
    and "1 - t \<le> lo" and "hi \<le> 1 + t"
  shows "\<bar>y - x\<bar> \<le> x * t"
proof -
  define d where "d = x * t"
  have eqL: "x * (1 - t) = x - d" by (simp add: right_diff_distrib d_def)
  have eqU: "x * (1 + t) = x + d" by (simp add: distrib_left d_def)
  have "x * (1 - t) \<le> x * lo" using assms(4,3) by (rule mult_left_mono)
  then have l: "x - d \<le> x * lo" by (simp only: eqL)
  have "x * hi \<le> x * (1 + t)" using assms(5,3) by (rule mult_left_mono)
  then have h: "x * hi \<le> x + d" by (simp only: eqU)
  from l h assms(1,2) have "\<bar>y - x\<bar> \<le> d" by linarith
  then show ?thesis by (simp only: d_def)
qed

subsection \<open>A resolution, its scale, and back\<close>

text \<open>
  C3: the round trip over double arithmetic. For a unit with a table entry \<open>m\<close> between
  \<open>2 ^ - 30\<close> and \<open>2 ^ 30\<close> and a resolution \<open>r\<close> between \<open>2 ^ - 900\<close> and
  \<open>2 ^ 900\<close>, \<open>getScaleForResolution\<close> returns a finite scale within a relative
  \<open>1e-15\<close> of \<open>r * m * 39.37 * (25.4 / 0.28)\<close>, and \<open>getResolutionForScale\<close>
  takes that scale back to a finite resolution within a relative \<open>1e-15\<close> of \<open>r\<close>.
  Three products are rounded on the way to the scale, two in the divisor, and the quotient
  once.
\<close>

theorem scale_resolution_round_trip:
  assumes unit: "METERS_PER_UNIT u = Some m"
    and m: "1 / 2 ^ 30 \<le> m" "m \<le> 2 ^ 30"
    and r: "1 / 2 ^ 900 \<le> r" "r \<le> 2 ^ 900"
  shows "\<exists>s r'. getScaleForResolution METERS_PER_UNIT (Fin r) u = Fin s
           \<and> \<bar>s - r * m * (3937 / 100) * (254 / 10 / (28 / 100))\<bar>
               \<le> r * m * (3937 / 100) * (254 / 10 / (28 / 100)) / 10 ^ 15
           \<and> getResolutionForScale METERS_PER_UNIT (Fin s) u = Fin r'
           \<and> \<bar>r' - r\<bar> \<le> r / 10 ^ 15"
proof -
  define I :: real where "I = 5540834916549263 / 2 ^ 47"
  define D :: real where "D = 6383450364688090 / 2 ^ 46"
  define L1 :: real where "L1 = 1 * (1 - 1 / 2 ^ 53)"
  define U1 :: real where "U1 = 1 * (1 + 1 / 2 ^ 53)"
  define L2 :: real where "L2 = L1 * (1 - 1 / 2 ^ 53)"
  define U2 :: real where "U2 = U1 * (1 + 1 / 2 ^ 53)"
  define L3 :: real where "L3 = L2 * (1 - 1 / 2 ^ 53)"
  define U3 :: real where "U3 = U2 * (1 + 1 / 2 ^ 53)"
  have iI: "fl (3937 / 100) = Fin I" by (simp add: I_def fl_literals)
  have dD: "js_div (fl (254 / 10)) (fl (28 / 100)) = Fin D" by (simp add: D_def fl_literals)
  have LU1: "1 / 2 \<le> L1" "U1 \<le> 2" by (simp_all add: L1_def U1_def)
  have LU2: "1 / 2 \<le> L2" "U2 \<le> 2" by (simp_all add: L1_def U1_def L2_def U2_def)
  have LU3: "1 / 2 \<le> L3" "U3 \<le> 2"
    by (simp_all add: L1_def U1_def L2_def U2_def L3_def U3_def)
  have rr: "2 powi (- 900) \<le> r" "r \<le> 2 powi 900" using r by simp_all
  have mr: "2 powi (- 30) \<le> m" "m \<le> 2 powi 30" using m by simp_all
  have Ir: "2 powi 5 \<le> I" "I \<le> 2 powi 6" by (simp_all add: I_def)
  have Dr: "2 powi 6 \<le> D" "D \<le> 2 powi 7" by (simp_all add: D_def)
  have rpos: "0 < r" using rr(1) by (rule less_le_trans [rotated]) simp
  have mpos: "0 < m" using mr(1) by (rule less_le_trans [rotated]) simp
  have Ipos: "0 < I" by (simp add: I_def)
  have Dpos: "0 < D" by (simp add: D_def)
  have x1: "2 powi (- 930) \<le> r * m" "r * m \<le> 2 powi 930"
    using range_step [OF rr mr, of "- 930" 930] by simp_all
  have x2: "2 powi (- 925) \<le> r * m * I" "r * m * I \<le> 2 powi 936"
    using range_step [OF x1 Ir, of "- 925" 936] by simp_all
  have x3: "2 powi (- 919) \<le> r * m * I * D" "r * m * I * D \<le> 2 powi 943"
    using range_step [OF x2 Dr, of "- 919" 943] by simp_all
  have z1: "2 powi (- 25) \<le> m * I" "m * I \<le> 2 powi 36"
    using range_step [OF mr Ir, of "- 25" 36] by simp_all
  have z2: "2 powi (- 19) \<le> m * I * D" "m * I * D \<le> 2 powi 43"
    using range_step [OF z1 Dr, of "- 19" 43] by simp_all
  have wide: "2 powi (- 1021) \<le> x" "x \<le> 2 powi 1021"
    if "2 powi p \<le> x" "x \<le> 2 powi q" "- 1021 \<le> p" "q \<le> 1021" for x :: real and p q
  proof -
    have "(2::real) powi (- 1021) \<le> 2 powi p"
      using that(3) by (intro power_int_increasing) simp_all
    then show "2 powi (- 1021) \<le> x" using that(1) by (rule order_trans)
    have "(2::real) powi q \<le> 2 powi 1021"
      using that(4) by (intro power_int_increasing) simp_all
    with that(2) show "x \<le> 2 powi 1021" by (rule order_trans)
  qed
  have xpos1: "0 < r * m" using rpos mpos by simp
  have xpos2: "0 < r * m * I" using xpos1 Ipos by simp
  have xpos3: "0 < r * m * I * D" using xpos2 Dpos by simp
  have zpos1: "0 < m * I" using mpos Ipos by simp
  have zpos2: "0 < m * I * D" using zpos1 Dpos by simp
  have "r * 1 \<le> r" "r \<le> r * 1" by simp_all
  from mul_round [OF this rpos mpos _ _ wide [OF x1]] obtain a1 where
    a1: "js_mul (Fin r) (Fin m) = Fin a1" "r * m * L1 \<le> a1" "a1 \<le> r * m * U1"
    unfolding L1_def U1_def by auto
  from mul_round [OF a1(2,3) xpos1 Ipos LU1 wide [OF x2]] obtain a2 where
    a2: "js_mul (Fin a1) (Fin I) = Fin a2" "r * m * I * L2 \<le> a2" "a2 \<le> r * m * I * U2"
    unfolding L2_def U2_def by auto
  from mul_round [OF a2(2,3) xpos2 Dpos LU2 wide [OF x3]] obtain a3 where
    a3: "js_mul (Fin a2) (Fin D) = Fin a3" "r * m * I * D * L3 \<le> a3"
      "a3 \<le> r * m * I * D * U3"
    unfolding L3_def U3_def by auto
  have "m * 1 \<le> m" "m \<le> m * 1" by simp_all
  from mul_round [OF this mpos Ipos _ _ wide [OF z1]] obtain b1 where
    b1: "js_mul (Fin m) (Fin I) = Fin b1" "m * I * L1 \<le> b1" "b1 \<le> m * I * U1"
    unfolding L1_def U1_def by auto
  from mul_round [OF b1(2,3) zpos1 Dpos LU1 wide [OF z2]] obtain b2 where
    b2: "js_mul (Fin b1) (Fin D) = Fin b2" "m * I * D * L2 \<le> b2" "b2 \<le> m * I * D * U2"
    unfolding L2_def U2_def by auto
  have quot: "r * m * I * D / (m * I * D) = r" using mpos Ipos Dpos by simp
  have qr: "2 powi (- 1020) \<le> r * m * I * D / (m * I * D)"
    "r * m * I * D / (m * I * D) \<le> 2 powi 1020"
  proof -
    have "(2::real) powi (- 1020) \<le> 2 powi (- 900)"
      by (intro power_int_increasing) simp_all
    then show "2 powi (- 1020) \<le> r * m * I * D / (m * I * D)"
      unfolding quot using rr(1) by (rule order_trans)
    have "(2::real) powi 900 \<le> 2 powi 1020" by (intro power_int_increasing) simp_all
    with rr(2) show "r * m * I * D / (m * I * D) \<le> 2 powi 1020"
      unfolding quot by (rule order_trans)
  qed
  from div_round [OF a3(2,3) b2(2,3) xpos3 zpos2 LU3 LU2 qr] obtain r' where
    r': "js_div (Fin a3) (Fin b2) = Fin r'"
      "r * (L3 / U2 * (1 - 1 / 2 ^ 53)) \<le> r'" "r' \<le> r * (U3 / L2 * (1 + 1 / 2 ^ 53))"
    unfolding quot by auto
  have scale: "getScaleForResolution METERS_PER_UNIT (Fin r) u = Fin a3"
    unfolding getScaleForResolution_def Let_def lookupUnit_def parseFloat_def unit iI dD
    by (simp only: option.case a1(1) a2(1) a3(1))
  have res: "getResolutionForScale METERS_PER_UNIT (Fin a3) u = Fin r'"
    unfolding getResolutionForScale_def Let_def lookupUnit_def parseFloat_def unit iI dD
    by (simp only: option.case b1(1) b2(1) r'(1))
  have c1: "1 - 1 / 10 ^ 15 \<le> L3 / U2 * (1 - 1 / 2 ^ 53)"
    by (simp add: L1_def U1_def L2_def U2_def L3_def U3_def)
  have c2: "U3 / L2 * (1 + 1 / 2 ^ 53) \<le> 1 + 1 / 10 ^ 15"
    by (simp add: L1_def U1_def L2_def U2_def L3_def U3_def)
  from within_relative [OF r'(2,3) _ c1 c2] rpos have trip: "\<bar>r' - r\<bar> \<le> r / 10 ^ 15"
    by simp
  define K :: real where "K = 3937 / 100 * (254 / 10 / (28 / 100))"
  have Kpos: "0 < K" by (simp add: K_def)
  have k1: "K * (1 - 1 / 10 ^ 15) \<le> I * D * L3"
    by (simp add: K_def I_def D_def L1_def L2_def L3_def)
  have k2: "I * D * U3 \<le> K * (1 + 1 / 10 ^ 15)"
    by (simp add: K_def I_def D_def U1_def U2_def U3_def)
  have "r * m * (K * (1 - 1 / 10 ^ 15)) \<le> r * m * (I * D * L3)"
    using k1 xpos1 by (intro mult_left_mono) simp_all
  then have s1: "r * m * K * (1 - 1 / 10 ^ 15) \<le> a3" using a3(2) by (simp only: mult.assoc)
  have "r * m * (I * D * U3) \<le> r * m * (K * (1 + 1 / 10 ^ 15))"
    using k2 xpos1 by (intro mult_left_mono) simp_all
  then have s2: "a3 \<le> r * m * K * (1 + 1 / 10 ^ 15)" using a3(3) by (simp only: mult.assoc)
  have "0 \<le> r * m * K" using xpos1 Kpos by simp
  from within_relative [OF s1 s2 this order_refl order_refl]
  have "\<bar>a3 - r * m * K\<bar> \<le> r * m * K / 10 ^ 15" by simp
  then have fwd: "\<bar>a3 - r * m * (3937 / 100) * (254 / 10 / (28 / 100))\<bar>
               \<le> r * m * (3937 / 100) * (254 / 10 / (28 / 100)) / 10 ^ 15"
    by (simp only: K_def mult.assoc)
  from scale fwd res trip show ?thesis by blast
qed

theorem scale_resolution_round_trip_witness:
  "metersOnly ''m'' = Some 1
   \<and> 1 / 2 ^ 30 \<le> (1::real) \<and> (1::real) \<le> 2 ^ 30
   \<and> 1 / 2 ^ 900 \<le> (50::real) \<and> (50::real) \<le> 2 ^ 900
   \<and> (\<exists>s r'. getScaleForResolution metersOnly (Fin 50) ''m'' = Fin s
          \<and> getResolutionForScale metersOnly (Fin s) ''m'' = Fin r'
          \<and> \<bar>r' - 50\<bar> \<le> 50 / 10 ^ 15)"
proof -
  have unit: "metersOnly ''m'' = Some 1" by (simp add: metersOnly_def)
  have m: "1 / 2 ^ 30 \<le> (1::real)" "(1::real) \<le> 2 ^ 30" by simp_all
  have r: "1 / 2 ^ 900 \<le> (50::real)" "(50::real) \<le> 2 ^ 900" by simp_all
  from scale_resolution_round_trip [of metersOnly "''m''" 1 50] unit m r have
    "\<exists>s r'. getScaleForResolution metersOnly (Fin 50) ''m'' = Fin s
          \<and> getResolutionForScale metersOnly (Fin s) ''m'' = Fin r'
          \<and> \<bar>r' - 50\<bar> \<le> 50 / 10 ^ 15"
    by blast
  with unit m r show ?thesis by blast
qed

text \<open>
  Three round trips. For the unit \<open>'m'\<close> of the table \<open>metersOnly\<close> the resolution 1000
  comes back as the next double above 1000, and the resolution \<open>2 ^ 1020\<close> overflows on
  the way to the scale and comes back as \<open>Infinity\<close>. For a table that gives the unit
  \<open>'ft'\<close> the double of 0.3048, the smallest positive double \<open>2 ^ - 1074\<close> has the
  scale 0 and comes back as 0.
\<close>

lemma val_39370: "fl (1000 * (5540834916549263 / 2 ^ 47)) = Fin 39370"
  using fl_eval [of "1000 * (5540834916549263 / 2 ^ 47)" 15 5410971598192640] by simp

lemma val_scale_1000:
  "fl (39370 * (6383450364688090 / 2 ^ 46)) = Fin (7669569117973941 / 2 ^ 31)"
  using fl_eval [of "39370 * (6383450364688090 / 2 ^ 46)" 21 7669569117973941] by simp

lemma val_back_1000:
  "fl ((7669569117973941 / 2 ^ 31) / (7853638776805315 / 2 ^ 41)) = Fin (1000 + 1 / 2 ^ 43)"
  using fl_eval [of "(7669569117973941 / 2 ^ 31) / (7853638776805315 / 2 ^ 41)" 9
      8796093022208001]
  by simp

lemma scale_of_1000:
  "getScaleForResolution metersOnly (Fin 1000) ''m'' = Fin (7669569117973941 / 2 ^ 31)"
proof -
  have "js_mul (Fin 1000) (Fin 1) = Fin 1000" by (simp add: fl_numeral)
  moreover have "js_mul (Fin 1000) (Fin (5540834916549263 / 2 ^ 47)) = Fin 39370"
    using val_39370 by simp
  moreover have "js_mul (Fin 39370) (Fin (6383450364688090 / 2 ^ 46))
                   = Fin (7669569117973941 / 2 ^ 31)"
    using val_scale_1000 by simp
  ultimately show ?thesis
    unfolding getScaleForResolution_def Let_def lookupUnit_def parseFloat_def metersOnly_def
    by (simp add: fl_literals)
qed

lemma resolution_of_scale_1000:
  "getResolutionForScale metersOnly (Fin (7669569117973941 / 2 ^ 31)) ''m''
     = Fin (1000 + 1 / 2 ^ 43)"
  using meters_factor val_back_1000
  by (simp add: getResolutionForScale_def parseFloat_def Let_def)

lemma scale_of_huge: "getScaleForResolution metersOnly (Fin (2 ^ 1020)) ''m'' = PInf"
proof -
  have "fl (of_int 1 * 2 powi 1020) = Fin (of_int 1 * 2 powi 1020)"
    by (rule fl_exact) simp_all
  then have one: "js_mul (Fin (2 ^ 1020)) (Fin 1) = Fin (2 ^ 1020)" by simp
  have "(2::real) ^ 1024 \<le> \<bar>2 ^ 1020 * (5540834916549263 / 2 ^ 47)\<bar>" by simp
  from fl_overflow [OF this]
  have two: "js_mul (Fin (2 ^ 1020)) (Fin (5540834916549263 / 2 ^ 47)) = PInf" by simp
  have three: "js_mul PInf (Fin (6383450364688090 / 2 ^ 46)) = PInf" by simp
  from one two three show ?thesis
    unfolding getScaleForResolution_def Let_def lookupUnit_def parseFloat_def metersOnly_def
    by (simp add: fl_literals)
qed

lemma resolution_of_infinite_scale: "getResolutionForScale metersOnly PInf ''m'' = PInf"
  using meters_factor by (simp add: getResolutionForScale_def parseFloat_def Let_def)

text \<open>Less than half the smallest positive double rounds to zero.\<close>

lemma fl_tiny:
  assumes "\<bar>x\<bar> < 2 powi (- 1075)"
  shows "fl x = Fin 0"
proof (cases "x = 0")
  case True
  then show ?thesis by (simp add: fl_zero)
next
  case False
  define b where "b = \<lfloor>log 2 \<bar>x\<bar>\<rfloor>"
  define g where "g = (2::real) powi (- 1074)"
  have gpos: "0 < g" by (simp add: g_def)
  from binade_bounds [OF False] have "2 powi b \<le> \<bar>x\<bar>" by (simp add: b_def)
  from this assms have "(2::real) powi b < 2 powi (- 1075)" by (rule le_less_trans)
  then have "b < - 1075" by (rule two_powi_less_imp)
  then have e: "max b (- 1022) - 52 = - 1074" by simp
  have "(2::real) powi (- 1075) = g / 2"
    unfolding g_def using power_int_diff [of "2::real" "- 1074" 1] by simp
  with assms have "\<bar>x\<bar> < g / 2" by simp
  then have "\<bar>x\<bar> / g < 1 / 2" using gpos by (simp add: pos_divide_less_eq)
  then have "\<bar>x / g - of_int 0\<bar> < 1 / 2" using gpos by simp
  then have "rne (x / g) = 0" by (rule rne_near)
  then show ?thesis
    using False unfolding fl_def Let_def b_def [symmetric] e g_def [symmetric] by simp
qed

lemma scale_of_tiny_feet:
  "getScaleForResolution [''ft'' \<mapsto> 5490788665690109 / 2 ^ 54] (Fin (1 / 2 ^ 1074)) ''ft''
     = Fin 0"
proof -
  have "fl (1 / 2 ^ 1074 * (5490788665690109 / 2 ^ 54)) = Fin 0"
    by (rule fl_tiny) simp
  then have "js_mul (Fin (1 / 2 ^ 1074)) (Fin (5490788665690109 / 2 ^ 54)) = Fin 0" by simp
  then show ?thesis
    unfolding getScaleForResolution_def Let_def lookupUnit_def parseFloat_def
    by (simp add: fl_literals fl_zero)
qed

lemma val_feet_inches:
  "fl ((5490788665690109 / 2 ^ 54) * (5540834916549263 / 2 ^ 47))
     = Fin (6755385930256862 / 2 ^ 49)"
  using fl_eval [of "(5490788665690109 / 2 ^ 54) * (5540834916549263 / 2 ^ 47)" 3
      6755385930256862]
  by simp

lemma val_feet_factor:
  "fl ((6755385930256862 / 2 ^ 49) * (6383450364688090 / 2 ^ 46))
     = Fin (4787578198340521 / 2 ^ 42)"
  using fl_eval [of "(6755385930256862 / 2 ^ 49) * (6383450364688090 / 2 ^ 46)" 10
      4787578198340521]
  by simp

lemma resolution_of_zero_feet:
  "getResolutionForScale [''ft'' \<mapsto> 5490788665690109 / 2 ^ 54] (Fin 0) ''ft'' = Fin 0"
proof -
  have "js_mul (Fin (5490788665690109 / 2 ^ 54)) (Fin (5540834916549263 / 2 ^ 47))
          = Fin (6755385930256862 / 2 ^ 49)"
    using val_feet_inches by simp
  moreover have "js_mul (Fin (6755385930256862 / 2 ^ 49)) (Fin (6383450364688090 / 2 ^ 46))
          = Fin (4787578198340521 / 2 ^ 42)"
    using val_feet_factor by simp
  ultimately show ?thesis
    unfolding getResolutionForScale_def Let_def lookupUnit_def parseFloat_def
    by (simp add: fl_literals fl_zero)
qed

theorem scale_resolution_round_trip_counterexample:
  "isDouble 1000 \<and> isDouble (2 ^ 1020) \<and> isDouble (1 / 2 ^ 1074)
   \<and> getResolutionForScale metersOnly (getScaleForResolution metersOnly (Fin 1000) ''m'') ''m''
       = Fin (1000 + 1 / 2 ^ 43)
   \<and> getResolutionForScale metersOnly
         (getScaleForResolution metersOnly (Fin (2 ^ 1020)) ''m'') ''m'' = PInf
   \<and> getResolutionForScale [''ft'' \<mapsto> 5490788665690109 / 2 ^ 54]
         (getScaleForResolution [''ft'' \<mapsto> 5490788665690109 / 2 ^ 54]
            (Fin (1 / 2 ^ 1074)) ''ft'') ''ft'' = Fin 0"
proof -
  have a: "isDouble 1000" by (simp add: isDouble_numeral)
  have "fl (of_int 1 * 2 powi 1020) = Fin (of_int 1 * 2 powi 1020)"
    by (rule fl_exact) simp_all
  then have b: "isDouble (2 ^ 1020)" by (simp add: isDouble_def)
  have "fl (of_int 1 * 2 powi (- 1074)) = Fin (of_int 1 * 2 powi (- 1074))"
    by (rule fl_exact) simp_all
  then have c: "isDouble (1 / 2 ^ 1074)" by (simp add: isDouble_def)
  from a b c show ?thesis
    using scale_of_1000 resolution_of_scale_1000 scale_of_huge resolution_of_infinite_scale
      scale_of_tiny_feet resolution_of_zero_feet
    by (simp only: simp_thms)
qed

section \<open>Properties of the position search\<close>

lemma indexOfFrom_none:
  "\<forall>l\<in>set ls. ol_uid l \<noteq> ol_uid layer \<Longrightarrow> indexOfFrom ls layer i = - 1"
  by (induction ls arbitrary: i) auto

lemma indexOfFrom_first:
  "\<exists>l\<in>set ls. ol_uid l = ol_uid layer \<Longrightarrow>
     indexOfFrom ls layer i = i + int (length (takeWhile (\<lambda>l. ol_uid l \<noteq> ol_uid layer) ls))"
proof (induction ls arbitrary: i)
  case Nil
  then show ?case by simp
next
  case (Cons a ls)
  show ?case
  proof (cases "ol_uid a = ol_uid layer")
    case True
    then show ?thesis by simp
  next
    case False
    with Cons.prems have "\<exists>l\<in>set ls. ol_uid l = ol_uid layer" by auto
    from Cons.IH [OF this, of "i + 1"] False show ?thesis by simp
  qed
qed

lemma indexOf_negative:
  "indexOf ls layer < 0 \<longleftrightarrow> (\<forall>l\<in>set ls. ol_uid l \<noteq> ol_uid layer)"
proof (cases "\<exists>l\<in>set ls. ol_uid l = ol_uid layer")
  case True
  from indexOfFrom_first [OF this, of 0] True show ?thesis by (auto simp: indexOf_def)
next
  case False
  then show ?thesis by (simp add: indexOf_def indexOfFrom_none)
qed

text \<open>An immediate child is located in its group at its first index.\<close>

lemma locates_immediate:
  assumes "\<exists>l\<in>set ls. ol_uid l = ol_uid layer"
  shows "locates \<lparr>position = Some (indexOf ls layer),
                   groupLayer = Some (OlLayerGroup u n mn mx ls)\<rparr>
           layer (OlLayerGroup u n mn mx ls)"
proof -
  let ?k = "length (takeWhile (\<lambda>l. ol_uid l \<noteq> ol_uid layer) ls)"
  have idx: "indexOf ls layer = int ?k"
    using indexOfFrom_first [OF assms, of 0] by (simp add: indexOf_def)
  from assms obtain x where "x \<in> set ls" "\<not> ol_uid x \<noteq> ol_uid layer" by auto
  from takeWhile_stops [of x ls "\<lambda>l. ol_uid l \<noteq> ol_uid layer", OF this]
  have k: "?k < length ls" "ol_uid (ls ! ?k) = ol_uid layer" by simp_all
  have "list_all (\<lambda>l. ol_uid l \<noteq> ol_uid layer) (take ?k ls)"
    by (metis (mono_tags, lifting) list_all_iff set_takeWhileD takeWhile_eq_take)
  with k idx show ?thesis by (simp add: locates_def)
qed

lemma occursBelow_group:
  "occursBelow layer (OlLayerGroup u n mn mx ls)
     \<longleftrightarrow> (\<exists>c\<in>set ls. ol_uid c = ol_uid layer \<or> occursBelow layer c)"
  by (auto simp: occursBelow_def list_ex_iff)

lemma occursBelow_leaf: "\<not> isGroup c \<Longrightarrow> \<not> occursBelow layer c"
  by (cases c) (simp_all add: occursBelow_def)

lemma locates_found: "locates info layer g \<Longrightarrow> groupLayer info \<noteq> None"
  by (auto simp: locates_def split: option.splits)

lemma locates_lift:
  assumes "locates info layer c" and "c \<in> set ls"
  shows "locates info layer (OlLayerGroup u n mn mx ls)"
  using assms by (auto simp: locates_def split: option.splits)


text \<open>The search, by induction on its own recursion: what a group yields, and what the
  loop over the children yields from an empty and from a filled \<open>info\<close>.\<close>

lemma position_search:
  "isGroup g \<longrightarrow>
     (if occursBelow layer g
      then \<exists>info. positionInGroup layer g = Inr info \<and> locates info layer g
      else positionInGroup layer g = Inr \<lparr>position = None, groupLayer = None\<rparr>)"
  "(groupLayer info \<noteq> None \<longrightarrow> searchChildren layer ls info = Inr info)
   \<and> (info = \<lparr>position = None, groupLayer = None\<rparr> \<longrightarrow>
        (case find (\<lambda>c. isGroup c \<and> occursBelow layer c) ls of
           None \<Rightarrow> searchChildren layer ls info = Inr \<lparr>position = None, groupLayer = None\<rparr>
         | Some c \<Rightarrow> searchChildren layer ls info = positionInGroup layer c
                     \<and> (\<exists>i. positionInGroup layer c = Inr i \<and> locates i layer c)))"
proof (induction layer g and layer ls info rule: positionInGroup_searchChildren.induct)
  case (1 layer u n mn mx s)
  show ?case by simp
next
  case (2 layer u n mn mx layers)
  show ?case
  proof (cases "indexOf layers layer < 0")
    case False
    then have imm: "\<exists>l\<in>set layers. ol_uid l = ol_uid layer"
      by (simp add: indexOf_negative)
    then have "occursBelow layer (OlLayerGroup u n mn mx layers)"
      by (auto simp: occursBelow_group)
    with False locates_immediate [OF imm] show ?thesis by simp
  next
    case True
    then have none: "\<forall>l\<in>set layers. ol_uid l \<noteq> ol_uid layer"
      by (simp add: indexOf_negative)
    let ?f = "find (\<lambda>c. isGroup c \<and> occursBelow layer c) layers"
    from "2.IH" [OF True]
    have ih: "case ?f of
           None \<Rightarrow> searchChildren layer layers \<lparr>position = None, groupLayer = None\<rparr>
                    = Inr \<lparr>position = None, groupLayer = None\<rparr>
         | Some c \<Rightarrow> searchChildren layer layers \<lparr>position = None, groupLayer = None\<rparr>
                       = positionInGroup layer c
                     \<and> (\<exists>i. positionInGroup layer c = Inr i \<and> locates i layer c)"
      by simp
    show ?thesis
    proof (cases ?f)
      case None
      then have "\<not> occursBelow layer (OlLayerGroup u n mn mx layers)"
        using none occursBelow_leaf by (auto simp: occursBelow_group find_None_iff)
      with ih None True show ?thesis by simp
    next
      case (Some c)
      then have c: "c \<in> set layers" "occursBelow layer c"
        by (auto simp: find_Some_iff)
      then have "occursBelow layer (OlLayerGroup u n mn mx layers)"
        by (auto simp: occursBelow_group)
      with ih Some True c(1) show ?thesis by (auto intro: locates_lift)
    qed
  qed
next
  case (3 layer info)
  show ?case by simp
next
  case (4 layer childLayer rest info)
  show ?case
  proof (cases "isGroup childLayer \<and> groupLayer info = None")
    case False
    then have step: "searchChildren layer (childLayer # rest) info
                       = searchChildren layer rest info"
      by auto
    have skip: "find (\<lambda>c. isGroup c \<and> occursBelow layer c) (childLayer # rest)
                  = find (\<lambda>c. isGroup c \<and> occursBelow layer c) rest"
      if "info = \<lparr>position = None, groupLayer = None\<rparr>"
      using that False by simp
    from "4.IH"(3) [OF False] show ?thesis
      unfolding step using skip by presburger
  next
    case True
    note ih1 = "4.IH"(1) [OF True]
    show ?thesis
    proof (cases "occursBelow layer childLayer")
      case occ: True
      with ih1 True obtain i where i: "positionInGroup layer childLayer = Inr i"
        "locates i layer childLayer" by auto
      from "4.IH"(2) [OF True i(1)] locates_found [OF i(2)]
      have "searchChildren layer rest i = Inr i" by simp
      with True occ i show ?thesis by simp
    next
      case nocc: False
      with ih1 True
      have e: "positionInGroup layer childLayer = Inr \<lparr>position = None, groupLayer = None\<rparr>"
        by simp
      from True e have step: "searchChildren layer (childLayer # rest) info
                       = searchChildren layer rest \<lparr>position = None, groupLayer = None\<rparr>"
        by simp
      have skip: "find (\<lambda>c. isGroup c \<and> occursBelow layer c) (childLayer # rest)
                    = find (\<lambda>c. isGroup c \<and> occursBelow layer c) rest"
        using nocc by simp
      from True have "groupLayer info = None" by simp
      with "4.IH"(2) [OF True e] show ?thesis
        unfolding step skip by simp
    qed
  qed
qed


lemma find_first_branch:
  "\<forall>x\<in>set pre. \<not> P x \<Longrightarrow> P c \<Longrightarrow> find P (pre @ c # post) = Some c"
  by (induction pre) auto

lemma position_example:
  "getLayerPositionInfo LayerC (OfLayer Group1)
     = Inr \<lparr>position = Some 1, groupLayer = Some Group2\<rparr>"
  by (simp add: getLayerPositionInfo_def Group1_def Group2_def LayerA_def LayerB_def
        LayerC_def indexOf_def)

text \<open>
  C8. For a layer and a root group (given itself or through a map):
  when the layer is nowhere below the root, \<open>getLayerPositionInfo\<close> returns the
  object without keys; when it is, the result names an owning group, the root or a
  group below it, and the first index of the layer among that group's immediate
  children. An immediate child of the root is found in the root itself. Otherwise the
  result is that of the first child group below which the layer occurs, whatever
  the siblings after it are. For \<open>Group1[LayerA, Group2[LayerB, LayerC]]\<close> the position
  of \<open>LayerC\<close> is \<open>Group2\<close> at index 1.
\<close>

theorem getLayerPositionInfo_first_match:
  "(\<not> occursBelow layer (OlLayerGroup u n mn mx ls) \<longrightarrow>
      getLayerPositionInfo layer (OfLayer (OlLayerGroup u n mn mx ls))
        = Inr \<lparr>position = None, groupLayer = None\<rparr>)
   \<and> (occursBelow layer (OlLayerGroup u n mn mx ls) \<longrightarrow>
      (\<exists>info. getLayerPositionInfo layer (OfLayer (OlLayerGroup u n mn mx ls)) = Inr info
             \<and> locates info layer (OlLayerGroup u n mn mx ls)))
   \<and> ((\<exists>l\<in>set ls. ol_uid l = ol_uid layer) \<longrightarrow>
      getLayerPositionInfo layer (OfLayer (OlLayerGroup u n mn mx ls))
        = Inr \<lparr>position = Some (indexOf ls layer),
                 groupLayer = Some (OlLayerGroup u n mn mx ls)\<rparr>)
   \<and> (\<forall>pre c post.
        ls = pre @ c # post \<and> (\<forall>l\<in>set ls. ol_uid l \<noteq> ol_uid layer)
        \<and> isGroup c \<and> occursBelow layer c \<and> (\<forall>x\<in>set pre. \<not> occursBelow layer x) \<longrightarrow>
        getLayerPositionInfo layer (OfLayer (OlLayerGroup u n mn mx ls))
          = getLayerPositionInfo layer (OfLayer c))
   \<and> getLayerPositionInfo layer (OfMap (OlMap (OlLayerGroup u n mn mx ls) v))
       = getLayerPositionInfo layer (OfLayer (OlLayerGroup u n mn mx ls))
   \<and> getLayerPositionInfo LayerC (OfLayer Group1)
       = Inr \<lparr>position = Some 1, groupLayer = Some Group2\<rparr>"
proof -
  let ?g = "OlLayerGroup u n mn mx ls"
  have absent: "getLayerPositionInfo layer (OfLayer ?g)
                  = Inr \<lparr>position = None, groupLayer = None\<rparr>"
    if "\<not> occursBelow layer ?g"
    using that position_search(1) [of ?g layer] by (simp add: getLayerPositionInfo_def)
  have present: "\<exists>info. getLayerPositionInfo layer (OfLayer ?g) = Inr info
                   \<and> locates info layer ?g"
    if "occursBelow layer ?g"
    using that position_search(1) [of ?g layer] by (simp add: getLayerPositionInfo_def)
  have immediate: "getLayerPositionInfo layer (OfLayer ?g)
                     = Inr \<lparr>position = Some (indexOf ls layer), groupLayer = Some ?g\<rparr>"
    if "\<exists>l\<in>set ls. ol_uid l = ol_uid layer"
    using that indexOf_negative [of ls layer] by (auto simp: getLayerPositionInfo_def)
  have branch: "getLayerPositionInfo layer (OfLayer ?g) = getLayerPositionInfo layer (OfLayer c)"
    if ls: "ls = pre @ c # post" and none: "\<forall>l\<in>set ls. ol_uid l \<noteq> ol_uid layer"
      and c: "isGroup c" "occursBelow layer c" and pre: "\<forall>x\<in>set pre. \<not> occursBelow layer x"
    for pre c post
  proof -
    from pre c have "find (\<lambda>c. isGroup c \<and> occursBelow layer c) (pre @ c # post) = Some c"
      by (intro find_first_branch) simp_all
    with position_search(2) [of "\<lparr>position = None, groupLayer = None\<rparr>" layer ls]
    have "searchChildren layer ls \<lparr>position = None, groupLayer = None\<rparr>
            = positionInGroup layer c"
      by (simp add: ls)
    moreover from none have "indexOf ls layer < 0" by (simp add: indexOf_negative)
    ultimately show ?thesis by (simp add: getLayerPositionInfo_def)
  qed
  have viaMap: "getLayerPositionInfo layer (OfMap (OlMap ?g v))
                  = getLayerPositionInfo layer (OfLayer ?g)"
    by (simp add: getLayerPositionInfo_def)
  from absent present immediate branch viaMap position_example show ?thesis by blast
qed

theorem getLayerPositionInfo_first_match_witness:
  "occursBelow LayerC Group1
   \<and> getLayerPositionInfo LayerC (OfLayer Group1)
       = Inr \<lparr>position = Some 1, groupLayer = Some Group2\<rparr>
   \<and> locates \<lparr>position = Some 1, groupLayer = Some Group2\<rparr> LayerC Group1
   \<and> \<not> occursBelow Group1 Group1
   \<and> getLayerPositionInfo Group1 (OfLayer Group1)
       = Inr \<lparr>position = None, groupLayer = None\<rparr>"
proof -
  have occ: "occursBelow LayerC Group1"
    by (simp add: occursBelow_def Group1_def Group2_def LayerA_def LayerB_def LayerC_def)
  have nocc: "\<not> occursBelow Group1 Group1"
    by (simp add: occursBelow_def Group1_def Group2_def LayerA_def LayerB_def LayerC_def)
  have loc: "locates \<lparr>position = Some 1, groupLayer = Some Group2\<rparr> LayerC Group1"
    by (simp add: locates_def Group1_def Group2_def LayerA_def LayerB_def LayerC_def)
  from getLayerPositionInfo_first_match
         [of Group1 5 "''Group1''" "Fin 0" PInf "[LayerA, Group2]"]
    getLayerPositionInfo_first_match
         [of LayerC 5 "''Group1''" "Fin 0" PInf "[LayerA, Group2]"]
    occ nocc loc
  show ?thesis by (simp add: Group1_def [symmetric])
qed

section \<open>Properties of the legend URL builder\<close>

lemma map_of_setProperty: "map_of (setProperty k v ps) x = ((map_of ps)(k \<mapsto> v)) x"
  by (induction ps) auto

lemma map_of_assignAll: "map_of (assignAll target src) x = (map_of target ++ map_of (rev src)) x"
proof (induction src arbitrary: target)
  case Nil
  show ?case by simp
next
  case (Cons kv src)
  obtain k v where kv: "kv = (k, v)" by (cases kv)
  show ?case
    by (simp add: kv Cons map_of_setProperty map_add_def split: option.splits)
qed

lemma map_of_Object_assign:
  "map_of (Object_assign target extraParams)
     = map_of target ++ (case extraParams of None \<Rightarrow> Map.empty | Some e \<Rightarrow> map_of (rev e))"
  by (cases extraParams) (auto simp: map_of_assignAll)

lemma legend_url_shape:
  assumes "isTileWMS source \<or> isImageWMS source"
  shows "getLegendGraphicUrl objectToRequestString (Some (OlLayer u n mn mx (Some source)))
           extraParams
         = Inr (Some (toString (if isTileWMS source then firstUrl (getUrls source)
                                else getUrl source)
                @ (if CHR ''?'' \<in> set (toString (if isTileWMS source
                                                   then firstUrl (getUrls source)
                                                   else getUrl source))
                   then ''&'' else ''?'')
                @ objectToRequestString
                    (Object_assign [(''LAYER'', paramLAYERS source),
                                    (''VERSION'', Some ''1.3.0''),
                                    (''SERVICE'', Some ''WMS''),
                                    (''REQUEST'', Some ''getLegendGraphic''),
                                    (''FORMAT'', Some ''image/png'')] extraParams)))"
  using assms by (simp add: Let_def)

text \<open>
  C9. For a layer whose source is a tiled or a single-image WMS source,
  \<open>getLegendGraphicUrl\<close> returns the base URL (the first URL of a tiled source, the
  URL of a single-image source), then \<open>&\<close> when the base URL contains a \<open>?\<close> and
  \<open>?\<close> otherwise, then the encoding of the parameter object. That object holds
  \<open>LAYER\<close> (the \<open>LAYERS\<close> parameter of the source), \<open>VERSION=1.3.0\<close>,
  \<open>SERVICE=WMS\<close>, \<open>REQUEST=getLegendGraphic\<close> and \<open>FORMAT=image/png\<close>, overlaid
  with \<open>extraParams\<close>, whose values win. With the plain encoder, the tiled source
  \<open>http://x/wms\<close> with \<open>LAYERS=foo\<close> gives the URL of the specification, and a
  base URL with a query is continued with \<open>&\<close>.
\<close>

theorem getLegendGraphicUrl_wms:
  assumes "isTileWMS source \<or> isImageWMS source"
  shows "(\<exists>base obj.
            base = toString (if isTileWMS source then firstUrl (getUrls source)
                             else getUrl source)
          \<and> obj = Object_assign [(''LAYER'', paramLAYERS source),
                                  (''VERSION'', Some ''1.3.0''),
                                  (''SERVICE'', Some ''WMS''),
                                  (''REQUEST'', Some ''getLegendGraphic''),
                                  (''FORMAT'', Some ''image/png'')] extraParams
          \<and> getLegendGraphicUrl objectToRequestString
                (Some (OlLayer u n mn mx (Some source))) extraParams
              = Inr (Some (base @ (if CHR ''?'' \<in> set base then ''&'' else ''?'')
                           @ objectToRequestString obj))
          \<and> map_of obj
              = map_of [(''LAYER'', paramLAYERS source),
                        (''VERSION'', Some ''1.3.0''),
                        (''SERVICE'', Some ''WMS''),
                        (''REQUEST'', Some ''getLegendGraphic''),
                        (''FORMAT'', Some ''image/png'')]
                ++ (case extraParams of None \<Rightarrow> Map.empty | Some e \<Rightarrow> map_of (rev e)))
       \<and> getLegendGraphicUrl plainRequestString
            (Some (OlLayer u n mn mx (Some (OlSourceTileWMS (Some [''http://x/wms''])
                                              (Some ''foo''))))) None
          = Inr (Some (''http://x/wms?LAYER=foo&VERSION=1.3.0&SERVICE=WMS''
                       @ ''&REQUEST=getLegendGraphic&FORMAT=image/png''))
       \<and> getLegendGraphicUrl plainRequestString
            (Some (OlLayer u n mn mx (Some (OlSourceImageWMS (Some ''http://x/wms?map=a'')
                                              (Some ''foo'')))))
            (Some [(''FORMAT'', Some ''image/gif''), (''WIDTH'', Some ''20'')])
          = Inr (Some (''http://x/wms?map=a&LAYER=foo&VERSION=1.3.0&SERVICE=WMS''
                       @ ''&REQUEST=getLegendGraphic&FORMAT=image/gif&WIDTH=20''))"
proof -
  have ex1: "getLegendGraphicUrl plainRequestString
            (Some (OlLayer u n mn mx (Some (OlSourceTileWMS (Some [''http://x/wms''])
                                              (Some ''foo''))))) None
          = Inr (Some (''http://x/wms?LAYER=foo&VERSION=1.3.0&SERVICE=WMS''
                       @ ''&REQUEST=getLegendGraphic&FORMAT=image/png''))"
    by simp
  have ex2: "getLegendGraphicUrl plainRequestString
            (Some (OlLayer u n mn mx (Some (OlSourceImageWMS (Some ''http://x/wms?map=a'')
                                              (Some ''foo'')))))
            (Some [(''FORMAT'', Some ''image/gif''), (''WIDTH'', Some ''20'')])
          = Inr (Some (''http://x/wms?map=a&LAYER=foo&VERSION=1.3.0&SERVICE=WMS''
                       @ ''&REQUEST=getLegendGraphic&FORMAT=image/gif&WIDTH=20''))"
    by simp
  from legend_url_shape [OF assms] ex1 ex2 show ?thesis
    by (simp only: map_of_Object_assign simp_thms ex_simps) 
qed

theorem getLegendGraphicUrl_wms_witness:
  "isTileWMS (OlSourceTileWMS (Some [''http://x/wms'']) (Some ''foo''))
   \<and> getLegendGraphicUrl plainRequestString
        (Some (OlLayer 1 ''LayerA'' (Fin 0) PInf
                 (Some (OlSourceTileWMS (Some [''http://x/wms'']) (Some ''foo''))))) None
      = Inr (Some (''http://x/wms?LAYER=foo&VERSION=1.3.0&SERVICE=WMS''
                   @ ''&REQUEST=getLegendGraphic&FORMAT=image/png''))"
proof -
  have t: "isTileWMS (OlSourceTileWMS (Some [''http://x/wms'']) (Some ''foo''))
           \<or> isImageWMS (OlSourceTileWMS (Some [''http://x/wms'']) (Some ''foo''))"
    by simp
  from getLegendGraphicUrl_wms [OF t, where objectToRequestString = plainRequestString
      and extraParams = None and u = 1 and n = "''LayerA''" and mn = "Fin 0" and mx = PInf]
  show ?thesis by simp
qed

end
